theory Spec2Isabelle
  imports Main
begin

section \<open>eventpub-hooks: the publish/subscribe registry of src/index.ts\<close>

subsection \<open>Values, keys and configuration\<close>

text \<open>
  JavaScript values as far as the registry looks at them: arguments handed to
  subscribers, values a promise is fulfilled with, and whatever is thrown.
  \<open>Error m\<close> is an \<^verbatim>\<open>Error\<close> object with message \<open>m\<close>.
\<close>

datatype val = Undefined | Num int | Str string | Error string

text \<open>
  \<^verbatim>\<open>type EventKey = string | number\<close>. Number keys are the integers
  (fractions and NaN are left out). A key is falsy when it is \<^verbatim>\<open>""\<close> or \<^verbatim>\<open>0\<close>.
\<close>

datatype EventKey = KStr string | KNum int

fun truthy :: "EventKey \<Rightarrow> bool" where
  "truthy (KStr s) = (s \<noteq> [])"
| "truthy (KNum n) = (n \<noteq> 0)"

datatype level = LError | LWarn | LInfo | LDebug

text \<open>
  \<^verbatim>\<open>maxSubscribers\<close> is a number whose default is \<^verbatim>\<open>Infinity\<close>; any integer,
  also zero or a negative one, is a well-typed value.
\<close>

datatype limit = Infinity | Limit int

text \<open>The interface \<^verbatim>\<open>PubSubConfig\<close>: every field is optional.\<close>

record PubSubConfig =
  maxSubscribers_opt :: "limit option"
  logLevel_opt :: "level option"
  asyncTimeout_opt :: "int option"

text \<open>The configuration of one instance, after the defaults have been merged in.\<close>

record config =
  maxSubscribers :: limit
  logLevel :: level
  asyncTimeout :: int

definition defaultConfig :: config where
  "defaultConfig = \<lparr>maxSubscribers = Infinity, logLevel = LError, asyncTimeout = 10000\<rparr>"

text \<open>\<^verbatim>\<open>const config = { ...defaultConfig, ...initialConfig }\<close>\<close>

definition mergeConfig :: "PubSubConfig \<Rightarrow> config" where
  "mergeConfig initialConfig =
     \<lparr>maxSubscribers = (case maxSubscribers_opt initialConfig of
                          None \<Rightarrow> maxSubscribers defaultConfig | Some m \<Rightarrow> m),
      logLevel = (case logLevel_opt initialConfig of
                    None \<Rightarrow> logLevel defaultConfig | Some l \<Rightarrow> l),
      asyncTimeout = (case asyncTimeout_opt initialConfig of
                        None \<Rightarrow> asyncTimeout defaultConfig | Some t \<Rightarrow> t)\<rparr>"

subsection \<open>The console\<close>

text \<open>
  The three messages the module writes. Their texts are
  \<^verbatim>\<open>Max subscribers (${config.maxSubscribers}) reached for key ${key}\<close>,
  \<^verbatim>\<open>Error in event callback for key ${key}:\<close> and \<^verbatim>\<open>Error in event callback:\<close>;
  the last two are followed by the error as a second argument.
\<close>

datatype message =
    MaxSubscribersReached limit EventKey
  | ErrorInCallbackForKey EventKey
  | ErrorInCallback

text \<open>
  One call \<^verbatim>\<open>console[level](message)\<close> or \<^verbatim>\<open>console.error(message, error)\<close>. The
  console records the call and returns.
\<close>

datatype console_call = Console level message "val option"

subsection \<open>Map and Set objects\<close>

text \<open>
  A \<^verbatim>\<open>Set\<close> is its list of entries in insertion order, where a deleted entry
  stays in the list as an empty slot (\<open>None\<close>); that is how the language defines
  \<^verbatim>\<open>Set\<close> and \<^verbatim>\<open>Map\<close>, and it is what \<^verbatim>\<open>forEach\<close> walks while callbacks add and
  delete entries. At most one slot holds a given element; \<open>delete\<close> empties it.
\<close>

type_synonym 'a entries = "'a option list"

definition values_of :: "'a entries \<Rightarrow> 'a list" where
  "values_of es = List.map_filter id es"

definition size_of :: "'a entries \<Rightarrow> nat" where
  "size_of es = length (values_of es)"

definition set_add :: "'a entries \<Rightarrow> 'a \<Rightarrow> 'a entries" where
  "set_add es x = (if Some x \<in> set es then es else es @ [Some x])"

definition set_delete :: "'a entries \<Rightarrow> 'a \<Rightarrow> 'a entries" where
  "set_delete es x = map (\<lambda>e. if e = Some x then None else e) es"

text \<open>\<^verbatim>\<open>Map.prototype.get\<close>: the value of the first entry with that key.\<close>

fun map_get :: "('k \<times> 'v) entries \<Rightarrow> 'k \<Rightarrow> 'v option" where
  "map_get [] k = None"
| "map_get (None # es) k = map_get es k"
| "map_get (Some (k', v) # es) k = (if k' = k then Some v else map_get es k)"

definition map_has :: "('k \<times> 'v) entries \<Rightarrow> 'k \<Rightarrow> bool" where
  "map_has es k = (map_get es k \<noteq> None)"

definition map_set :: "('k \<times> 'v) entries \<Rightarrow> 'k \<Rightarrow> 'v \<Rightarrow> ('k \<times> 'v) entries" where
  "map_set es k v =
     (if map_has es k
      then map (\<lambda>e. case e of None \<Rightarrow> None
                      | Some (k', v') \<Rightarrow> if k' = k then Some (k, v) else Some (k', v')) es
      else es @ [Some (k, v)])"

definition map_delete :: "('k \<times> 'v) entries \<Rightarrow> 'k \<Rightarrow> ('k \<times> 'v) entries" where
  "map_delete es k =
     map (\<lambda>e. case e of None \<Rightarrow> None
                | Some (k', v) \<Rightarrow> if k' = k then None else Some (k', v)) es"

definition map_clear :: "('k \<times> 'v) entries \<Rightarrow> ('k \<times> 'v) entries" where
  "map_clear es = map (\<lambda>e. None) es"

definition map_keys :: "('k \<times> 'v) entries \<Rightarrow> 'k list" where
  "map_keys es = map fst (values_of es)"

subsection \<open>The state\<close>

text \<open>
  Subscribers are functions compared by reference, so a subscriber is the
  identity of a function object. The \<^verbatim>\<open>Set\<close> objects live in a store, since
  \<^verbatim>\<open>publishSync\<close> keeps walking a \<^verbatim>\<open>Set\<close> that a callback may meanwhile have
  changed or detached from the map.
\<close>

type_synonym Subscriber = nat
type_synonym ref = nat

record world =
  eventMap :: "(EventKey \<times> ref) entries"
  sets :: "ref \<Rightarrow> Subscriber entries"
  nextRef :: ref
  console :: "console_call list"

definition emptyWorld :: world where
  "emptyWorld = \<lparr>eventMap = [], sets = (\<lambda>r. []), nextRef = 0, console = []\<rparr>"

subsection \<open>log and handleError\<close>

definition levels :: "level list" where
  "levels = [LError, LWarn, LInfo, LDebug]"

text \<open>\<^verbatim>\<open>Array.prototype.indexOf\<close>: the first index of the element, or -1.\<close>

fun indexOf :: "'a list \<Rightarrow> 'a \<Rightarrow> int" where
  "indexOf [] x = -1"
| "indexOf (y # ys) x =
     (if y = x then 0 else (let i = indexOf ys x in if i < 0 then -1 else i + 1))"

definition isLog :: "level \<Rightarrow> config \<Rightarrow> bool" where
  "isLog lvl cfg = (indexOf levels lvl \<le> indexOf levels (logLevel cfg))"

definition log :: "level \<Rightarrow> message \<Rightarrow> config \<Rightarrow> world \<Rightarrow> world" where
  "log lvl msg cfg w =
     (if isLog lvl cfg then w\<lparr>console := console w @ [Console lvl msg None]\<rparr> else w)"

text \<open>
  The ordering of the levels as the specification words it: \<open>error < warn < info < debug\<close>,
  a level admitting itself and every level before it (of higher severity). A
  message is at or above the threshold when its level is not after the
  configured one.
\<close>

fun rank :: "level \<Rightarrow> nat" where
  "rank LError = 0"
| "rank LWarn = 1"
| "rank LInfo = 2"
| "rank LDebug = 3"

definition atOrAboveThreshold :: "level \<Rightarrow> level \<Rightarrow> bool" where
  "atOrAboveThreshold l c = (rank l \<le> rank c)"

text \<open>
  \<^verbatim>\<open>handleError(error, key?)\<close>: the call to \<^verbatim>\<open>console.error\<close> it makes. The key is
  tested for truthiness, so an absent key and a falsy one give the same message.
\<close>

definition handleError :: "val \<Rightarrow> EventKey option \<Rightarrow> console_call" where
  "handleError error key =
     (case key of
        Some k \<Rightarrow> if truthy k then Console LError (ErrorInCallbackForKey k) (Some error)
                  else Console LError ErrorInCallback (Some error)
      | None \<Rightarrow> Console LError ErrorInCallback (Some error))"

subsection \<open>subscribe, unsubscribe, clear, debug\<close>

text \<open>What \<^verbatim>\<open>subscribe\<close> returns: \<^verbatim>\<open>() => {}\<close> or \<^verbatim>\<open>() => unsubscribe(key, callback)\<close>.\<close>

datatype unsubscriber = NoOp | Unsubscribe EventKey Subscriber

text \<open>\<^verbatim>\<open>size >= config.maxSubscribers\<close>\<close>

fun reached :: "nat \<Rightarrow> limit \<Rightarrow> bool" where
  "reached n Infinity = False"
| "reached n (Limit m) = (int n \<ge> m)"

text \<open>
  The first three lines of \<^verbatim>\<open>subscribe\<close>: the \<^verbatim>\<open>Set\<close> of the key, a new empty one
  being stored under the key when the map has none.
\<close>

definition ensure :: "EventKey \<Rightarrow> world \<Rightarrow> ref \<times> world" where
  "ensure key w =
     (case map_get (eventMap w) key of
        Some r \<Rightarrow> (r, w)
      | None \<Rightarrow> (nextRef w,
                 w\<lparr>eventMap := map_set (eventMap w) key (nextRef w),
                   sets := (sets w)(nextRef w := []),
                   nextRef := Suc (nextRef w)\<rparr>))"

definition subscribe :: "config \<Rightarrow> EventKey \<Rightarrow> Subscriber \<Rightarrow> world \<Rightarrow> unsubscriber \<times> world" where
  "subscribe cfg key callback w =
     (case ensure key w of
        (r, w1) \<Rightarrow>
          if reached (size_of (sets w1 r)) (maxSubscribers cfg)
          then (NoOp, log LWarn (MaxSubscribersReached (maxSubscribers cfg) key) cfg w1)
          else (Unsubscribe key callback,
                w1\<lparr>sets := (sets w1)(r := set_add (sets w1 r) callback)\<rparr>))"

definition unsubscribe :: "EventKey \<Rightarrow> Subscriber \<Rightarrow> world \<Rightarrow> world" where
  "unsubscribe key callback w =
     (case map_get (eventMap w) key of
        None \<Rightarrow> w
      | Some r \<Rightarrow>
          (let w1 = w\<lparr>sets := (sets w)(r := set_delete (sets w r) callback)\<rparr>
           in if size_of (sets w1 r) = 0
              then w1\<lparr>eventMap := map_delete (eventMap w1) key\<rparr>
              else w1))"

text \<open>Calling the function that \<^verbatim>\<open>subscribe\<close> returned.\<close>

fun call_unsubscriber :: "unsubscriber \<Rightarrow> world \<Rightarrow> world" where
  "call_unsubscriber NoOp w = w"
| "call_unsubscriber (Unsubscribe key callback) w = unsubscribe key callback w"

definition clear :: "world \<Rightarrow> world" where
  "clear w = w\<lparr>eventMap := map_clear (eventMap w)\<rparr>"

text \<open>\<^verbatim>\<open>eventMap.get(key)?.size ?? 0\<close> and \<^verbatim>\<open>Array.from(eventMap.keys())\<close>\<close>

definition getSubscribersCount :: "world \<Rightarrow> EventKey \<Rightarrow> nat" where
  "getSubscribersCount w key =
     (case map_get (eventMap w) key of None \<Rightarrow> 0 | Some r \<Rightarrow> size_of (sets w r))"

definition getAllKeys :: "world \<Rightarrow> EventKey list" where
  "getAllKeys w = map_keys (eventMap w)"

text \<open>The subscribers of a key, in insertion order (none when the key is absent).\<close>

definition subscribersOf :: "world \<Rightarrow> EventKey \<Rightarrow> Subscriber list" where
  "subscribersOf w key =
     (case map_get (eventMap w) key of None \<Rightarrow> [] | Some r \<Rightarrow> values_of (sets w r))"

subsection \<open>Subscribers and promises\<close>

text \<open>
  A promise is described by its fate: it settles \<open>t\<close> milliseconds after the
  call that made it, or never. Time \<open>0\<close> stands for a promise that is settled
  already or settles in the microtasks of the current turn, before any timer
  callback can run.
\<close>

datatype settled = Fulfilled val | Rejected val

datatype promise = Settles nat settled | Pending

text \<open>What a subscriber returns: \<^verbatim>\<open>void | Promise<void>\<close>.\<close>

datatype returned = Plain val | Promise promise

datatype completion = Throws val | Returns returned

text \<open>
  The subscribers are arbitrary functions of the host program. Calling one with
  the arguments runs its synchronous part, which may do anything to the state
  (it can call \<^verbatim>\<open>subscribe\<close>, \<^verbatim>\<open>unsubscribe\<close> or \<^verbatim>\<open>clear\<close> itself), and then
  throws or returns. Every call is taken to come back. What an asynchronous
  subscriber does after it has returned its promise is summed up in the fate of
  that promise.
\<close>

type_synonym behaviour = "Subscriber \<Rightarrow> val list \<Rightarrow> world \<Rightarrow> completion \<times> world"

text \<open>\<^verbatim>\<open>Promise.resolve(x)\<close>\<close>

fun promise_resolve :: "returned \<Rightarrow> promise" where
  "promise_resolve (Plain v) = Settles 0 (Fulfilled v)"
| "promise_resolve (Promise p) = p"

text \<open>
  \<^verbatim>\<open>setTimeout(f, timeout)\<close> is the host's, here as Node.js runs it: \<open>f\<close> is called
  after \<open>timeout\<close> milliseconds, and a delay below 1 or above 2147483647 is set
  to 1. (Browsers take such a delay for 0 or wrap it round: there too the timer
  is due at once.) Delays are whole milliseconds.
\<close>

definition timerDelay :: "int \<Rightarrow> nat" where
  "timerDelay timeout = (if timeout < 1 \<or> 2147483647 < timeout then 1 else nat timeout)"

definition timeoutError :: val where
  "timeoutError = Error ''Async callback timeout''"

text \<open>
  \<^verbatim>\<open>withTimeout(promise, timeout)\<close>: the timer is always set; the promise's
  reactions settle the result and clear the timer when they run first, and the
  timer rejects the result otherwise. A promise that settles in the very
  millisecond of the timer is taken to run first.
\<close>

definition withTimeout :: "promise \<Rightarrow> int \<Rightarrow> promise" where
  "withTimeout promise timeout =
     (case promise of
        Settles t s \<Rightarrow>
          if t \<le> timerDelay timeout then Settles t s
          else Settles (timerDelay timeout) (Rejected timeoutError)
      | Pending \<Rightarrow> Settles (timerDelay timeout) (Rejected timeoutError))"

text \<open>
  \<^verbatim>\<open>p.catch((error) => handleError(error, key))\<close>: the promise it gives, and the
  console call the handler makes with the time at which it makes it.
\<close>

definition catch_handleError ::
  "EventKey option \<Rightarrow> promise \<Rightarrow> promise \<times> (nat \<times> console_call) list" where
  "catch_handleError key p =
     (case p of
        Settles t (Rejected error) \<Rightarrow>
          (Settles t (Fulfilled Undefined), [(t, handleError error key)])
      | Settles t (Fulfilled v) \<Rightarrow> (Settles t (Fulfilled v), [])
      | Pending \<Rightarrow> (Pending, []))"

fun rejections :: "promise list \<Rightarrow> (nat \<times> val) list" where
  "rejections [] = []"
| "rejections (Settles t (Rejected e) # ps) = (t, e) # rejections ps"
| "rejections (p # ps) = rejections ps"

fun settleTime :: "promise \<Rightarrow> nat" where
  "settleTime (Settles t s) = t"
| "settleTime Pending = 0"

text \<open>
  \<^verbatim>\<open>await Promise.all(ps)\<close> at the end of an \<^verbatim>\<open>async\<close> function that returns
  nothing: the promise of the function. It is rejected with the earliest
  rejection among \<open>ps\<close>, stays pending while one of them does, and is fulfilled
  with \<^verbatim>\<open>undefined\<close> once the last has been fulfilled.
\<close>

definition await_all :: "promise list \<Rightarrow> promise" where
  "await_all ps =
     (case rejections ps of
        r # rs \<Rightarrow>
          (case foldl (\<lambda>(t, e) (t', e'). if t' < t then (t', e') else (t, e)) r rs of
             (t, e) \<Rightarrow> Settles t (Rejected e))
      | [] \<Rightarrow>
          if Pending \<in> set ps then Pending
          else Settles (foldr max (map settleTime ps) 0) (Fulfilled Undefined))"

subsection \<open>publishSync and publishAllSync\<close>

text \<open>
  The state of a running publish call: the world, and the calls to subscribers
  that this publish call itself has made so far, in order.
\<close>

record run =
  now :: world
  invoked :: "(Subscriber \<times> val list) list"

text \<open>
  The body of the inner \<^verbatim>\<open>forEach\<close>:
  \<^verbatim>\<open>try { callback(...args) } catch (error) { handleError(error, key) }\<close>
\<close>

definition try_callback ::
  "behaviour \<Rightarrow> EventKey option \<Rightarrow> val list \<Rightarrow> Subscriber \<Rightarrow> run \<Rightarrow> run" where
  "try_callback beh key args callback st =
     (case beh callback args (now st) of
        (Throws error, w') \<Rightarrow>
          \<lparr>now = w'\<lparr>console := console w' @ [handleError error key]\<rparr>,
           invoked = invoked st @ [(callback, args)]\<rparr>
      | (Returns v, w') \<Rightarrow>
          \<lparr>now = w', invoked = invoked st @ [(callback, args)]\<rparr>)"

text \<open>
  \<^verbatim>\<open>Set.prototype.forEach\<close> on the \<^verbatim>\<open>Set\<close> object \<open>r\<close>, from slot \<open>index\<close> on. The
  entries are read again after every call of \<open>f\<close>, so what \<open>f\<close> adds is visited
  and what it deletes ahead is not. A callback that keeps adding entries keeps
  the loop running: the result is \<open>None\<close> when the loop never ends.
\<close>

partial_function (option) set_forEach ::
  "(Subscriber \<Rightarrow> run \<Rightarrow> run) \<Rightarrow> ref \<Rightarrow> nat \<Rightarrow> run \<Rightarrow> run option" where
  "set_forEach f r index st =
     (if index < length (sets (now st) r)
      then (case sets (now st) r ! index of
              None \<Rightarrow> set_forEach f r (Suc index) st
            | Some callback \<Rightarrow> set_forEach f r (Suc index) (f callback st))
      else Some st)"

text \<open>\<^verbatim>\<open>Map.prototype.forEach\<close> on \<^verbatim>\<open>eventMap\<close>, likewise.\<close>

partial_function (option) map_forEach ::
  "(ref \<Rightarrow> run \<Rightarrow> run option) \<Rightarrow> nat \<Rightarrow> run \<Rightarrow> run option" where
  "map_forEach f index st =
     (if index < length (eventMap (now st))
      then (case eventMap (now st) ! index of
              None \<Rightarrow> map_forEach f (Suc index) st
            | Some (key, r) \<Rightarrow> Option.bind (f r st) (map_forEach f (Suc index)))
      else Some st)"

definition publishSync ::
  "behaviour \<Rightarrow> EventKey \<Rightarrow> val list \<Rightarrow> world \<Rightarrow> run option" where
  "publishSync beh key args w =
     (case map_get (eventMap w) key of
        None \<Rightarrow> Some \<lparr>now = w, invoked = []\<rparr>
      | Some r \<Rightarrow>
          set_forEach (try_callback beh (Some key) args) r 0 \<lparr>now = w, invoked = []\<rparr>)"

definition publishAllSync :: "behaviour \<Rightarrow> val list \<Rightarrow> world \<Rightarrow> run option" where
  "publishAllSync beh args w =
     map_forEach (\<lambda>r. set_forEach (try_callback beh None args) r 0) 0
       \<lparr>now = w, invoked = []\<rparr>"

subsection \<open>publish and publishAll\<close>

text \<open>
  The state while the array of promises is built: the world, the subscribers
  called so far, the promises made so far, and the console calls that their
  \<^verbatim>\<open>catch\<close> handlers are going to make.
\<close>

record batch =
  world_of :: world
  started :: "(Subscriber \<times> val list) list"
  promises :: "promise list"
  handled :: "(nat \<times> console_call) list"

definition batch0 :: "world \<Rightarrow> batch" where
  "batch0 w = \<lparr>world_of = w, started = [], promises = [], handled = []\<rparr>"

text \<open>
  The function handed to \<^verbatim>\<open>map\<close>:
  \<^verbatim>\<open>(callback) => withTimeout(Promise.resolve(callback(...args)), config.asyncTimeout!).catch(h)\<close>
  where \<open>h\<close> calls \<^verbatim>\<open>handleError\<close> with the key (\<^verbatim>\<open>publish\<close>) or without one
  (\<^verbatim>\<open>publishAll\<close>). The callback is called first, outside every promise: when it
  throws, the function handed to \<^verbatim>\<open>map\<close> throws (\<open>Inl\<close>).
\<close>

definition start_callback ::
  "behaviour \<Rightarrow> config \<Rightarrow> EventKey option \<Rightarrow> val list \<Rightarrow> Subscriber \<Rightarrow> batch
     \<Rightarrow> (val \<times> batch) + batch" where
  "start_callback beh cfg key args callback b =
     (case beh callback args (world_of b) of
        (Throws error, w') \<Rightarrow>
          Inl (error, b\<lparr>world_of := w', started := started b @ [(callback, args)]\<rparr>)
      | (Returns v, w') \<Rightarrow>
          (case catch_handleError key (withTimeout (promise_resolve v) (asyncTimeout cfg)) of
             (p, calls) \<Rightarrow>
               Inr (b\<lparr>world_of := w', started := started b @ [(callback, args)],
                      promises := promises b @ [p], handled := handled b @ calls\<rparr>)))"

text \<open>\<^verbatim>\<open>Array.from(subscribers).map(...)\<close> over the array, which is a copy.\<close>

fun start_all ::
  "behaviour \<Rightarrow> config \<Rightarrow> EventKey option \<Rightarrow> val list \<Rightarrow> Subscriber list \<Rightarrow> batch
     \<Rightarrow> (val \<times> batch) + batch" where
  "start_all beh cfg key args [] b = Inr b"
| "start_all beh cfg key args (callback # callbacks) b =
     (case start_callback beh cfg key args callback b of
        Inl thrown \<Rightarrow> Inl thrown
      | Inr b' \<Rightarrow> start_all beh cfg key args callbacks b')"

text \<open>
  \<^verbatim>\<open>Array.from(eventMap.values()).flatMap(...)\<close>: the \<^verbatim>\<open>Set\<close> objects are listed
  at the start, and each is copied when its turn comes.
\<close>

fun start_sets ::
  "behaviour \<Rightarrow> config \<Rightarrow> val list \<Rightarrow> ref list \<Rightarrow> batch \<Rightarrow> (val \<times> batch) + batch" where
  "start_sets beh cfg args [] b = Inr b"
| "start_sets beh cfg args (r # rs) b =
     (case start_all beh cfg None args (values_of (sets (world_of b) r)) b of
        Inl thrown \<Rightarrow> Inl thrown
      | Inr b' \<Rightarrow> start_sets beh cfg args rs b')"

text \<open>
  The end of the \<^verbatim>\<open>async\<close> function: an exception thrown while the array was
  built rejects its promise at once; otherwise the promises are awaited.
\<close>

fun finish :: "(val \<times> batch) + batch \<Rightarrow> promise \<times> batch" where
  "finish (Inl (error, b)) = (Settles 0 (Rejected error), b)"
| "finish (Inr b) = (await_all (promises b), b)"

definition publish ::
  "behaviour \<Rightarrow> config \<Rightarrow> EventKey \<Rightarrow> val list \<Rightarrow> world \<Rightarrow> promise \<times> batch" where
  "publish beh cfg key args w =
     (case map_get (eventMap w) key of
        None \<Rightarrow> (Settles 0 (Fulfilled Undefined), batch0 w)
      | Some r \<Rightarrow> finish (start_all beh cfg (Some key) args (values_of (sets w r)) (batch0 w)))"

definition publishAll :: "behaviour \<Rightarrow> config \<Rightarrow> val list \<Rightarrow> world \<Rightarrow> promise \<times> batch" where
  "publishAll beh cfg args w =
     finish (start_sets beh cfg args (map snd (values_of (eventMap w))) (batch0 w))"

subsection \<open>Subscribers that leave the registry alone\<close>

text \<open>
  A subscriber that does not call \<^verbatim>\<open>subscribe\<close>, \<^verbatim>\<open>unsubscribe\<close> or \<^verbatim>\<open>clear\<close>
  leaves the map and every \<^verbatim>\<open>Set\<close> as they are, whatever else it does.
\<close>

definition preserves_registry :: "behaviour \<Rightarrow> bool" where
  "preserves_registry beh =
     (\<forall>callback args w. eventMap (snd (beh callback args w)) = eventMap w
                       \<and> sets (snd (beh callback args w)) = sets w)"

text \<open>A subscriber that never throws synchronously (it may still return a promise that is rejected).\<close>

definition never_throws :: "behaviour \<Rightarrow> bool" where
  "never_throws beh = (\<forall>callback args w error. fst (beh callback args w) \<noteq> Throws error)"

text \<open>A promise that is fulfilled, and no later than \<open>d\<close> milliseconds after it was made.\<close>

fun fulfilled_by :: "nat \<Rightarrow> promise \<Rightarrow> bool" where
  "fulfilled_by d (Settles t (Fulfilled v)) = (t \<le> d)"
| "fulfilled_by d (Settles t (Rejected e)) = False"
| "fulfilled_by d Pending = False"

subsection \<open>A publish that its subscribers do not disturb\<close>

text \<open>
  \<open>set_walk f r st0 i st\<close>: the loop of \<open>set_forEach f r\<close>, started at slot \<open>0\<close>
  in the state \<open>st0\<close>, comes to slot \<open>i\<close> in the state \<open>st\<close>.
\<close>

inductive set_walk ::
  "(Subscriber \<Rightarrow> run \<Rightarrow> run) \<Rightarrow> ref \<Rightarrow> run \<Rightarrow> nat \<Rightarrow> run \<Rightarrow> bool"
  for f :: "Subscriber \<Rightarrow> run \<Rightarrow> run" and r :: ref and st0 :: run where
  start: "set_walk f r st0 0 st0"
| skip: "set_walk f r st0 i st \<Longrightarrow> i < length (sets (now st) r) \<Longrightarrow>
         sets (now st) r ! i = None \<Longrightarrow> set_walk f r st0 (Suc i) st"
| call: "set_walk f r st0 i st \<Longrightarrow> i < length (sets (now st) r) \<Longrightarrow>
         sets (now st) r ! i = Some callback \<Longrightarrow> set_walk f r st0 (Suc i) (f callback st)"

text \<open>The subscribers that the loop has still to call when it stands at slot \<open>i\<close>.\<close>

definition rest_of_set :: "ref \<Rightarrow> nat \<Rightarrow> run \<Rightarrow> Subscriber list" where
  "rest_of_set r i st = values_of (drop i (sets (now st) r))"

text \<open>
  Every call that the loop makes leaves the subscribers after the called one,
  those still to be called, as they are. The called subscriber may have
  unsubscribed itself or subscribers called before it, and may have changed
  other sets and the map.
\<close>

definition set_undisturbed :: "(Subscriber \<Rightarrow> run \<Rightarrow> run) \<Rightarrow> ref \<Rightarrow> run \<Rightarrow> bool" where
  "set_undisturbed f r st0 =
     (\<forall>i st callback.
        set_walk f r st0 i st \<longrightarrow> i < length (sets (now st) r) \<longrightarrow>
        sets (now st) r ! i = Some callback \<longrightarrow>
        rest_of_set r (Suc i) (f callback st) = rest_of_set r (Suc i) st)"

text \<open>
  \<open>map_walk g st0 i st\<close>: the loop of \<open>map_forEach g\<close>, started at slot \<open>0\<close> in
  the state \<open>st0\<close>, comes to slot \<open>i\<close> in the state \<open>st\<close>; \<open>rest_of_map i st\<close> are
  the subscribers of the keys from slot \<open>i\<close> on, key after key.
\<close>

inductive map_walk :: "(ref \<Rightarrow> run \<Rightarrow> run option) \<Rightarrow> run \<Rightarrow> nat \<Rightarrow> run \<Rightarrow> bool"
  for g :: "ref \<Rightarrow> run \<Rightarrow> run option" and st0 :: run where
  start: "map_walk g st0 0 st0"
| skip: "map_walk g st0 i st \<Longrightarrow> i < length (eventMap (now st)) \<Longrightarrow>
         eventMap (now st) ! i = None \<Longrightarrow> map_walk g st0 (Suc i) st"
| turn: "map_walk g st0 i st \<Longrightarrow> i < length (eventMap (now st)) \<Longrightarrow>
         eventMap (now st) ! i = Some (key, r) \<Longrightarrow> g r st = Some st' \<Longrightarrow>
         map_walk g st0 (Suc i) st'"

definition rest_of_map :: "nat \<Rightarrow> run \<Rightarrow> Subscriber list" where
  "rest_of_map i st =
     concat (map (\<lambda>e. values_of (sets (now st) (snd e)))
               (values_of (drop i (eventMap (now st)))))"

text \<open>
  The proviso for one call of \<open>publishSync\<close>: the walk of the key's set is
  undisturbed. For one call of \<open>publishAllSync\<close>: the walk of the set of every
  key whose turn comes is undisturbed, and when that walk has ended the
  subscribers of the keys still to come are as they were before it.
\<close>

definition publishSync_undisturbed ::
  "behaviour \<Rightarrow> EventKey \<Rightarrow> val list \<Rightarrow> world \<Rightarrow> bool" where
  "publishSync_undisturbed beh key args w =
     (\<forall>r. map_get (eventMap w) key = Some r \<longrightarrow>
          set_undisturbed (try_callback beh (Some key) args) r \<lparr>now = w, invoked = []\<rparr>)"

definition publishAllSync_undisturbed :: "behaviour \<Rightarrow> val list \<Rightarrow> world \<Rightarrow> bool" where
  "publishAllSync_undisturbed beh args w =
     (\<forall>i st key r.
        map_walk (\<lambda>r. set_forEach (try_callback beh None args) r 0)
          \<lparr>now = w, invoked = []\<rparr> i st \<longrightarrow>
        i < length (eventMap (now st)) \<longrightarrow> eventMap (now st) ! i = Some (key, r) \<longrightarrow>
        set_undisturbed (try_callback beh None args) r st
        \<and> (\<forall>st'. set_forEach (try_callback beh None args) r 0 st = Some st' \<longrightarrow>
               rest_of_map (Suc i) st' = rest_of_map (Suc i) st))"

subsection \<open>Sequences of registry operations\<close>

text \<open>
  The registry is one module-level map shared by all instances, so every
  \<^verbatim>\<open>subscribe\<close> in a sequence comes with the configuration of the instance it is
  called on.
\<close>

datatype operation =
    DoSubscribe config EventKey Subscriber
  | DoUnsubscribe EventKey Subscriber
  | DoClear

fun apply_operation :: "operation \<Rightarrow> world \<Rightarrow> world" where
  "apply_operation (DoSubscribe cfg key callback) w = snd (subscribe cfg key callback w)"
| "apply_operation (DoUnsubscribe key callback) w = unsubscribe key callback w"
| "apply_operation DoClear w = clear w"

text \<open>The registry after a sequence of operations on the registry of a fresh module.\<close>

definition after :: "operation list \<Rightarrow> world" where
  "after ops = foldl (\<lambda>w op. apply_operation op w) emptyWorld ops"

text \<open>An operation of an instance whose \<^verbatim>\<open>maxSubscribers\<close> admits at least one subscriber.\<close>

fun admits_one :: "operation \<Rightarrow> bool" where
  "admits_one (DoSubscribe cfg key callback) = (\<not> reached 0 (maxSubscribers cfg))"
| "admits_one (DoUnsubscribe key callback) = True"
| "admits_one DoClear = True"

text \<open>
  What holds of every registry that the operations build: keys and \<^verbatim>\<open>Set\<close>
  objects are not repeated in the map, the objects in the map have been
  allocated, and no \<^verbatim>\<open>Set\<close> holds an element twice.
\<close>

definition registry_ok :: "world \<Rightarrow> bool" where
  "registry_ok w =
     (distinct (map_keys (eventMap w))
      \<and> distinct (map snd (values_of (eventMap w)))
      \<and> (\<forall>(k, r) \<in> set (values_of (eventMap w)). r < nextRef w)
      \<and> (\<forall>r. distinct (values_of (sets w r))))"

definition no_empty_sets :: "world \<Rightarrow> bool" where
  "no_empty_sets w = (\<forall>(k, r) \<in> set (values_of (eventMap w)). values_of (sets w r) \<noteq> [])"

subsection \<open>Example states\<close>

text \<open>Instances made with \<^verbatim>\<open>{ maxSubscribers: 1, logLevel: "warn" }\<close> and \<^verbatim>\<open>{ maxSubscribers: 0 }\<close>.\<close>

definition config_one :: config where
  "config_one = mergeConfig
     \<lparr>maxSubscribers_opt = Some (Limit 1), logLevel_opt = Some LWarn, asyncTimeout_opt = None\<rparr>"

definition config_zero :: config where
  "config_zero = mergeConfig
     \<lparr>maxSubscribers_opt = Some (Limit 0), logLevel_opt = None, asyncTimeout_opt = None\<rparr>"

text \<open>
  Registries made on an instance with the defaults: after
  \<^verbatim>\<open>subscribe("a", f1)\<close>, after \<^verbatim>\<open>subscribe("a", f2)\<close>, after both in this order,
  and after \<^verbatim>\<open>subscribe("a", f3)\<close> as well.
\<close>

definition world_a1 :: world where
  "world_a1 = snd (subscribe defaultConfig (KStr ''a'') 1 emptyWorld)"

definition world_a2 :: world where
  "world_a2 = snd (subscribe defaultConfig (KStr ''a'') 2 emptyWorld)"

definition world_a12 :: world where
  "world_a12 = snd (subscribe defaultConfig (KStr ''a'') 2 world_a1)"

definition world_a123 :: world where
  "world_a123 = snd (subscribe defaultConfig (KStr ''a'') 3 world_a12)"

text \<open>\<^verbatim>\<open>f1 = () => { throw new Error("boom") }\<close>, every other subscriber returning at once.\<close>

definition first_throws :: behaviour where
  "first_throws callback args w =
     (if callback = 1 then (Throws (Error ''boom''), w) else (Returns (Plain Undefined), w))"

text \<open>\<^verbatim>\<open>f1 = () => { unsubscribe("a", f2) }\<close>, every other subscriber returning at once.\<close>

definition first_unsubscribes_second :: behaviour where
  "first_unsubscribes_second callback args w =
     (if callback = 1 then (Returns (Plain Undefined), unsubscribe (KStr ''a'') 2 w)
      else (Returns (Plain Undefined), w))"

text \<open>
  \<^verbatim>\<open>f3 = () => { unsubscribe("a", f2); subscribe("a", f2) }\<close>, every other
  subscriber returning at once.
\<close>

definition third_resubscribes_second :: behaviour where
  "third_resubscribes_second callback args w =
     (if callback = 3
      then (Returns (Plain Undefined),
            snd (subscribe defaultConfig (KStr ''a'') 2 (unsubscribe (KStr ''a'') 2 w)))
      else (Returns (Plain Undefined), w))"

text \<open>
  \<^verbatim>\<open>f1 = () => { unsubscribe("a", f1); throw new Error("boom") }\<close>, every other
  subscriber returning at once; and the states that a publish with these
  subscribers passes through when it starts with \<open>f1\<close> and \<open>f2\<close> under \<open>"a"\<close>.
\<close>

definition first_leaves_and_throws :: behaviour where
  "first_leaves_and_throws callback args w =
     (if callback = 1 then (Throws (Error ''boom''), unsubscribe (KStr ''a'') 1 w)
      else (Returns (Plain Undefined), w))"

definition a12_or_a2 :: "run \<Rightarrow> bool" where
  "a12_or_a2 st =
     (eventMap (now st) = [Some (KStr ''a'', 0)]
      \<and> (sets (now st) 0 = [Some 1, Some 2] \<or> sets (now st) 0 = [None, Some 2]))"

text \<open>A subscriber whose promise never settles, and an instance with \<^verbatim>\<open>{ asyncTimeout: 50 }\<close>.\<close>

definition never_settles :: behaviour where
  "never_settles callback args w = (Returns (Promise Pending), w)"

definition config_50 :: config where
  "config_50 = mergeConfig
     \<lparr>maxSubscribers_opt = None, logLevel_opt = None, asyncTimeout_opt = Some 50\<rparr>"

section \<open>Properties\<close>

subsection \<open>Entries of Map and Set objects\<close>

lemma values_of_Nil [simp]: "values_of [] = []"
  by (simp add: values_of_def)

lemma values_of_Cons_None [simp]: "values_of (None # es) = values_of es"
  by (simp add: values_of_def)

lemma values_of_Cons_Some [simp]: "values_of (Some x # es) = x # values_of es"
  by (simp add: values_of_def)

lemma values_of_append [simp]: "values_of (es @ fs) = values_of es @ values_of fs"
  by (simp add: values_of_def map_filter_def)

lemma set_values_of: "x \<in> set (values_of es) \<longleftrightarrow> Some x \<in> set es"
  by (induction es) (auto simp: values_of_def split: option.splits)

lemma values_of_set_add:
  "values_of (set_add es x) =
     (if x \<in> set (values_of es) then values_of es else values_of es @ [x])"
  by (simp add: set_add_def set_values_of)

lemma values_of_set_delete: "values_of (set_delete es x) = removeAll x (values_of es)"
  by (induction es) (auto simp: set_delete_def values_of_def split: option.splits)

lemma size_of_Nil [simp]: "size_of [] = 0"
  by (simp add: size_of_def)

lemma map_get_append:
  "map_get (es @ fs) k = (case map_get es k of Some v \<Rightarrow> Some v | None \<Rightarrow> map_get fs k)"
  by (induction es k rule: map_get.induct) auto

lemma map_get_set_same: "map_get (map_set es k v) k = Some v"
proof (cases "map_has es k")
  case False
  then show ?thesis by (simp add: map_set_def map_get_append map_has_def)
next
  case True
  have "map_get es k \<noteq> None \<Longrightarrow>
        map_get (map (\<lambda>e. case e of None \<Rightarrow> None
                      | Some (k', v') \<Rightarrow> if k' = k then Some (k, v) else Some (k', v')) es) k
        = Some v"
    by (induction es k rule: map_get.induct) auto
  with True show ?thesis by (simp add: map_set_def map_has_def)
qed

lemma map_get_delete_same: "map_get (map_delete es k) k = None"
  unfolding map_delete_def by (induction es) (auto split: option.splits)

lemma map_keys_delete: "map_keys (map_delete es k) = removeAll k (map_keys es)"
  by (induction es) (auto simp: map_delete_def map_keys_def values_of_def split: option.splits)

lemma map_get_keys: "map_get es k \<noteq> None \<longleftrightarrow> k \<in> set (map_keys es)"
  by (induction es k rule: map_get.induct) (auto simp: map_keys_def)

lemma map_get_distinct:
  "distinct (map_keys es) \<Longrightarrow> Some (k, r) \<in> set es \<Longrightarrow> map_get es k = Some r"
proof (induction es k rule: map_get.induct)
  case (3 k' v es k)
  then show ?case
    by (auto simp: map_keys_def set_values_of [symmetric] image_iff)
qed (auto simp: map_keys_def)

lemma map_get_in: "map_get es k = Some r \<Longrightarrow> (k, r) \<in> set (values_of es)"
  by (induction es k rule: map_get.induct) (auto split: if_splits)

lemma values_of_map_delete:
  "values_of (map_delete es k) = filter (\<lambda>e. fst e \<noteq> k) (values_of es)"
  by (induction es) (auto simp: map_delete_def split: option.splits)

lemma values_of_map_clear [simp]: "values_of (map_clear es) = []"
  by (induction es) (auto simp: map_clear_def)

lemma values_of_map_set_new:
  "map_get es k = None \<Longrightarrow> values_of (map_set es k v) = values_of es @ [(k, v)]"
  by (simp add: map_set_def map_has_def)

subsection \<open>The registry as its observers see it\<close>

lemma getSubscribersCount_length: "getSubscribersCount w key = length (subscribersOf w key)"
  by (simp add: getSubscribersCount_def subscribersOf_def size_of_def split: option.splits)

lemma observers_frame:
  assumes "eventMap w' = eventMap w" and "sets w' = sets w"
  shows "getSubscribersCount w' k = getSubscribersCount w k"
    and "subscribersOf w' k = subscribersOf w k"
    and "getAllKeys w' = getAllKeys w"
  using assms
  by (simp_all add: getSubscribersCount_def subscribersOf_def getAllKeys_def
      cong: option.case_cong)

lemma subscribe_key_present:
  "map_get (eventMap (snd (subscribe cfg key callback w))) key \<noteq> None"
  by (cases "map_get (eventMap w) key")
     (simp_all add: subscribe_def ensure_def map_get_set_same log_def)

lemma subscribersOf_subscribe:
  "subscribersOf (snd (subscribe cfg key callback w)) key =
     (if reached (getSubscribersCount w key) (maxSubscribers cfg)
          \<or> callback \<in> set (subscribersOf w key)
      then subscribersOf w key else subscribersOf w key @ [callback])"
  by (cases "map_get (eventMap w) key")
     (simp_all add: subscribe_def ensure_def map_get_set_same subscribersOf_def
        getSubscribersCount_def values_of_set_add log_def)

lemma subscribersOf_unsubscribe:
  "subscribersOf (unsubscribe key callback w) key = removeAll callback (subscribersOf w key)"
proof (cases "map_get (eventMap w) key")
  case None
  then show ?thesis by (simp add: unsubscribe_def subscribersOf_def)
next
  case (Some r)
  show ?thesis
  proof (cases "removeAll callback (values_of (sets w r)) = []")
    case True
    with Some show ?thesis
      by (simp add: unsubscribe_def subscribersOf_def size_of_def values_of_set_delete
          map_get_delete_same)
  next
    case False
    with Some show ?thesis
      by (simp add: unsubscribe_def subscribersOf_def size_of_def values_of_set_delete)
  qed
qed

lemma getAllKeys_unsubscribe:
  "getAllKeys (unsubscribe key callback w) =
     (if key \<in> set (getAllKeys w) \<and> removeAll callback (subscribersOf w key) = []
      then removeAll key (getAllKeys w) else getAllKeys w)"
proof (cases "map_get (eventMap w) key")
  case None
  then have "key \<notin> set (getAllKeys w)"
    using map_get_keys [of "eventMap w" key] by (simp add: getAllKeys_def)
  with None show ?thesis by (simp add: unsubscribe_def)
next
  case (Some r)
  then have "key \<in> set (getAllKeys w)"
    using map_get_keys [of "eventMap w" key] by (simp add: getAllKeys_def)
  with Some show ?thesis
    by (simp add: unsubscribe_def subscribersOf_def size_of_def values_of_set_delete
        getAllKeys_def map_keys_delete Let_def)
qed

lemma subscribe_then_unsubscribe:
  "subscribersOf (unsubscribe key f (snd (subscribe cfg key f w))) key
     = removeAll f (subscribersOf w key)
   \<and> (key \<in> set (getAllKeys (unsubscribe key f (snd (subscribe cfg key f w))))
        \<longleftrightarrow> removeAll f (subscribersOf w key) \<noteq> [])"
proof -
  let ?w1 = "snd (subscribe cfg key f w)"
  have a: "removeAll f (subscribersOf ?w1 key) = removeAll f (subscribersOf w key)"
    by (simp add: subscribersOf_subscribe)
  have "key \<in> set (getAllKeys ?w1)"
    using subscribe_key_present [of cfg key f w] map_get_keys [of "eventMap ?w1" key]
    by (simp add: getAllKeys_def)
  then show ?thesis
    by (simp add: subscribersOf_unsubscribe getAllKeys_unsubscribe a)
qed

subsection \<open>The example states, evaluated\<close>

lemmas registry_defs =
  subscribe_def unsubscribe_def ensure_def defaultConfig_def emptyWorld_def mergeConfig_def
  map_set_def map_has_def map_delete_def map_keys_def set_add_def set_delete_def size_of_def
  getSubscribersCount_def getAllKeys_def subscribersOf_def log_def isLog_def levels_def

lemma world_a1_eq:
  "world_a1 = \<lparr>eventMap = [Some (KStr ''a'', 0)], sets = (\<lambda>r. [])(0 := [Some 1]),
               nextRef = 1, console = []\<rparr>"
  by (simp add: world_a1_def registry_defs)

lemma world_a2_eq:
  "world_a2 = \<lparr>eventMap = [Some (KStr ''a'', 0)], sets = (\<lambda>r. [])(0 := [Some 2]),
               nextRef = 1, console = []\<rparr>"
  by (simp add: world_a2_def registry_defs)

lemma world_a12_eq:
  "world_a12 = \<lparr>eventMap = [Some (KStr ''a'', 0)], sets = (\<lambda>r. [])(0 := [Some 1, Some 2]),
                nextRef = 1, console = []\<rparr>"
  by (simp add: world_a12_def world_a1_eq registry_defs)

lemma world_a123_eq:
  "world_a123 = \<lparr>eventMap = [Some (KStr ''a'', 0)],
                 sets = (\<lambda>r. [])(0 := [Some 1, Some 2, Some 3]),
                 nextRef = 1, console = []\<rparr>"
  by (simp add: world_a123_def world_a12_eq registry_defs)

lemma config_one_eq:
  "config_one = \<lparr>maxSubscribers = Limit 1, logLevel = LWarn, asyncTimeout = 10000\<rparr>"
  by (simp add: config_one_def mergeConfig_def defaultConfig_def)

lemma config_zero_eq:
  "config_zero = \<lparr>maxSubscribers = Limit 0, logLevel = LError, asyncTimeout = 10000\<rparr>"
  by (simp add: config_zero_def mergeConfig_def defaultConfig_def)

lemma preserves_first_throws: "preserves_registry first_throws"
  by (simp add: preserves_registry_def first_throws_def)

subsection \<open>The logger\<close>

lemma indexOf_levels: "indexOf levels l = int (rank l)"
  by (cases l) (simp_all add: levels_def)

lemma console_log:
  "console (log l msg cfg w) =
     (if isLog l cfg then console w @ [Console l msg None] else console w)"
  by (simp add: log_def)

lemma eventMap_log [simp]: "eventMap (log l msg cfg w) = eventMap w"
  by (simp add: log_def)

lemma sets_log [simp]: "sets (log l msg cfg w) = sets w"
  by (simp add: log_def)

text \<open>
  Claim C8. A call of \<open>log\<close> with level \<open>l\<close> writes its message to the console
  exactly when \<open>l\<close> is at or above the configured threshold in the ordering
  \<open>error < warn < info < debug\<close>, and writes nothing otherwise; being at or above
  the threshold is the same as \<open>indexOf levels l \<le> indexOf levels (logLevel cfg)\<close>,
  the test the code makes.
\<close>

theorem log_emits_at_or_above_threshold:
  "log l msg cfg w =
     (if atOrAboveThreshold l (logLevel cfg)
      then w\<lparr>console := console w @ [Console l msg None]\<rparr> else w)
   \<and> atOrAboveThreshold l (logLevel cfg)
       = (indexOf levels l \<le> indexOf levels (logLevel cfg))"
  by (simp add: log_def isLog_def atOrAboveThreshold_def indexOf_levels)

subsection \<open>subscribe and unsubscribe\<close>

text \<open>
  Claim C4. When the subscriber count of \<open>key\<close> has reached \<open>maxSubscribers\<close>,
  \<open>subscribe\<close> returns the function that does nothing, leaves the count and the
  subscribers of \<open>key\<close> as they were, and writes the warning to the console at
  level \<open>warn\<close> if the configured threshold admits that level (and nothing if
  it does not).
\<close>

theorem subscribe_at_capacity:
  assumes "reached (getSubscribersCount w key) (maxSubscribers cfg)"
  shows "fst (subscribe cfg key callback w) = NoOp
       \<and> call_unsubscriber (fst (subscribe cfg key callback w)) w' = w'
       \<and> getSubscribersCount (snd (subscribe cfg key callback w)) key
           = getSubscribersCount w key
       \<and> subscribersOf (snd (subscribe cfg key callback w)) key = subscribersOf w key
       \<and> console (snd (subscribe cfg key callback w)) =
           (if isLog LWarn cfg
            then console w @ [Console LWarn (MaxSubscribersReached (maxSubscribers cfg) key) None]
            else console w)"
proof (cases "map_get (eventMap w) key")
  case None
  with assms have "reached 0 (maxSubscribers cfg)"
    by (simp add: getSubscribersCount_def)
  with None show ?thesis
    by (simp add: subscribe_def ensure_def getSubscribersCount_def subscribersOf_def
        map_get_set_same console_log)
next
  case (Some r)
  with assms have "reached (size_of (sets w r)) (maxSubscribers cfg)"
    by (simp add: getSubscribersCount_def)
  with Some show ?thesis
    by (simp add: subscribe_def ensure_def getSubscribersCount_def subscribersOf_def console_log)
qed

theorem subscribe_at_capacity_witness:
  "reached (getSubscribersCount world_a1 (KStr ''a'')) (maxSubscribers config_one)
   \<and> fst (subscribe config_one (KStr ''a'') 2 world_a1) = NoOp
   \<and> getSubscribersCount (snd (subscribe config_one (KStr ''a'') 2 world_a1)) (KStr ''a'') = 1
   \<and> console (snd (subscribe config_one (KStr ''a'') 2 world_a1)) =
       console world_a1 @ [Console LWarn (MaxSubscribersReached (Limit 1) (KStr ''a'')) None]"
proof -
  have c: "getSubscribersCount world_a1 (KStr ''a'') = 1"
    by (simp add: world_a1_eq getSubscribersCount_def size_of_def)
  have h: "reached (getSubscribersCount world_a1 (KStr ''a'')) (maxSubscribers config_one)"
    by (simp add: c config_one_eq)
  have l: "isLog LWarn config_one" "maxSubscribers config_one = Limit 1"
    by (simp_all add: isLog_def config_one_eq levels_def)
  show ?thesis
    using h l subscribe_at_capacity [OF h, of 2 emptyWorld] by (simp add: c)
qed

text \<open>
  Claim C9. When \<open>callback\<close> is already a subscriber of \<open>key\<close> and the count of
  \<open>key\<close> has reached \<open>maxSubscribers\<close>, \<open>subscribe\<close> leaves the map and the sets
  unchanged and returns the function that does nothing, not the closure over
  \<open>(key, callback)\<close>: calling what it returned leaves \<open>callback\<close> subscribed,
  where the closure would have removed it.
\<close>

theorem subscribe_member_at_capacity:
  assumes "callback \<in> set (subscribersOf w key)"
    and "reached (getSubscribersCount w key) (maxSubscribers cfg)"
  shows "fst (subscribe cfg key callback w) = NoOp
       \<and> fst (subscribe cfg key callback w) \<noteq> Unsubscribe key callback
       \<and> eventMap (snd (subscribe cfg key callback w)) = eventMap w
       \<and> sets (snd (subscribe cfg key callback w)) = sets w
       \<and> callback \<in> set (subscribersOf
            (call_unsubscriber (fst (subscribe cfg key callback w))
               (snd (subscribe cfg key callback w))) key)
       \<and> callback \<notin> set (subscribersOf
            (call_unsubscriber (Unsubscribe key callback)
               (snd (subscribe cfg key callback w))) key)"
proof -
  from assms(1) obtain r where r: "map_get (eventMap w) key = Some r"
    by (cases "map_get (eventMap w) key") (auto simp: subscribersOf_def)
  with assms(2) have full: "reached (size_of (sets w r)) (maxSubscribers cfg)"
    by (simp add: getSubscribersCount_def)
  have s: "subscribe cfg key callback w
             = (NoOp, log LWarn (MaxSubscribersReached (maxSubscribers cfg) key) cfg w)"
    using r full by (simp add: subscribe_def ensure_def)
  have "subscribersOf (log LWarn (MaxSubscribersReached (maxSubscribers cfg) key) cfg w) key
          = subscribersOf w key"
    using r by (simp add: subscribersOf_def)
  with assms(1) show ?thesis
    by (simp add: s subscribersOf_unsubscribe)
qed

theorem subscribe_member_at_capacity_witness:
  "1 \<in> set (subscribersOf world_a1 (KStr ''a''))
   \<and> reached (getSubscribersCount world_a1 (KStr ''a'')) (maxSubscribers config_one)
   \<and> fst (subscribe config_one (KStr ''a'') 1 world_a1) = NoOp
   \<and> subscribersOf
        (call_unsubscriber (fst (subscribe config_one (KStr ''a'') 1 world_a1))
           (snd (subscribe config_one (KStr ''a'') 1 world_a1))) (KStr ''a'') = [1]"
proof -
  have h1: "1 \<in> set (subscribersOf world_a1 (KStr ''a''))"
    by (simp add: world_a1_eq subscribersOf_def)
  have h2: "reached (getSubscribersCount world_a1 (KStr ''a'')) (maxSubscribers config_one)"
    by (simp add: world_a1_eq config_one_eq getSubscribersCount_def size_of_def)
  have "subscribersOf
        (call_unsubscriber NoOp (snd (subscribe config_one (KStr ''a'') 1 world_a1)))
        (KStr ''a'') = [1]"
    by (simp add: world_a1_eq config_one_eq subscribe_def ensure_def size_of_def log_def
        subscribersOf_def)
  then show ?thesis
    using h1 h2 subscribe_member_at_capacity [OF h1 h2] by simp
qed

text \<open>
  Claim C5, as amended. From every state in which \<open>key\<close> has no subscriber
  other than \<open>f\<close>, and for every configuration, \<open>subscribe key f\<close> followed by
  \<open>unsubscribe key f\<close> leaves the count of \<open>key\<close> at \<open>0\<close> and \<open>key\<close> out of
  \<open>getAllKeys\<close>. (From any state the pair leaves the subscribers of \<open>key\<close> other
  than \<open>f\<close>, and the key is listed when there is one: \<open>subscribe_then_unsubscribe\<close>.)
\<close>

theorem subscribe_unsubscribe_no_others:
  assumes "set (subscribersOf w key) \<subseteq> {f}"
  shows "getSubscribersCount (unsubscribe key f (snd (subscribe cfg key f w))) key = 0
       \<and> key \<notin> set (getAllKeys (unsubscribe key f (snd (subscribe cfg key f w))))"
proof -
  have "set xs \<subseteq> {f} \<Longrightarrow> removeAll f xs = []" for xs
    by (induction xs) auto
  with assms have "removeAll f (subscribersOf w key) = []"
    by blast
  then show ?thesis
    using subscribe_then_unsubscribe [of key f cfg w]
    by (simp add: getSubscribersCount_length)
qed

theorem subscribe_unsubscribe_no_others_witness:
  "set (subscribersOf world_a1 (KStr ''a'')) \<subseteq> {1}
   \<and> getSubscribersCount
        (unsubscribe (KStr ''a'') 1 (snd (subscribe config_one (KStr ''a'') 1 world_a1)))
        (KStr ''a'') = 0
   \<and> KStr ''a'' \<notin> set (getAllKeys
        (unsubscribe (KStr ''a'') 1 (snd (subscribe config_one (KStr ''a'') 1 world_a1))))"
proof -
  have h: "set (subscribersOf world_a1 (KStr ''a'')) \<subseteq> {1}"
    by (simp add: world_a1_eq subscribersOf_def)
  show ?thesis
    using h subscribe_unsubscribe_no_others [OF h, of config_one] by simp
qed

text \<open>
  The claim as it was stated, for every starting state, fails where \<open>key\<close> has
  another subscriber: with \<open>f2\<close> subscribed to \<open>"a"\<close>, subscribing and
  unsubscribing \<open>f1\<close> leaves one subscriber and the key in \<open>getAllKeys\<close>.
\<close>

theorem subscribe_unsubscribe_counterexample:
  "getSubscribersCount (unsubscribe (KStr ''a'') 1
       (snd (subscribe defaultConfig (KStr ''a'') 1 world_a2))) (KStr ''a'') = 1
   \<and> KStr ''a'' \<in> set (getAllKeys (unsubscribe (KStr ''a'') 1
       (snd (subscribe defaultConfig (KStr ''a'') 1 world_a2))))"
  by (simp add: world_a2_eq registry_defs)

text \<open>
  Claim C2 says that no operation leaves a key mapped to an empty set. On an
  instance made with \<^verbatim>\<open>{ maxSubscribers: 0 }\<close>, \<^verbatim>\<open>subscribe("a", f1)\<close> on the empty
  registry stores a new empty \<^verbatim>\<open>Set\<close> under \<open>"a"\<close> and returns at the capacity
  test: \<open>"a"\<close> is in \<open>getAllKeys\<close> with a count of \<open>0\<close>.
\<close>

theorem subscribe_leaves_empty_set:
  "getAllKeys (snd (subscribe config_zero (KStr ''a'') 1 emptyWorld)) = [KStr ''a'']
   \<and> getSubscribersCount (snd (subscribe config_zero (KStr ''a'') 1 emptyWorld)) (KStr ''a'') = 0"
  by (simp add: config_zero_eq registry_defs)

subsection \<open>The invariants of the registry\<close>

text \<open>
  \<open>registry_ok\<close> holds after every sequence of operations. That every key in
  the map has a non-empty set holds as long as every \<open>subscribe\<close> comes from an
  instance whose \<^verbatim>\<open>maxSubscribers\<close> admits a first subscriber: the capacity test then
  never stops a \<open>subscribe\<close> that has just stored a new \<^verbatim>\<open>Set\<close>. For such
  sequences a key is in \<open>getAllKeys\<close> exactly when its count is positive
  (\<open>registry_invariant\<close>).
\<close>

lemma registry_ok_empty: "registry_ok emptyWorld"
  by (simp add: registry_ok_def emptyWorld_def map_keys_def)

lemma registry_ok_clear: "registry_ok w \<Longrightarrow> registry_ok (clear w)"
  by (simp add: registry_ok_def clear_def map_keys_def)

lemma distinct_set_add: "distinct (values_of es) \<Longrightarrow> distinct (values_of (set_add es x))"
  by (simp add: values_of_set_add)

lemma distinct_set_delete: "distinct (values_of es) \<Longrightarrow> distinct (values_of (set_delete es x))"
  by (simp add: values_of_set_delete distinct_removeAll)

lemma registry_ok_subscribe:
  assumes "registry_ok w"
  shows "registry_ok (snd (subscribe cfg key callback w))"
proof (cases "map_get (eventMap w) key")
  case None
  then have "key \<notin> set (map_keys (eventMap w))"
    using map_get_keys [of "eventMap w" key] by simp
  moreover have "nextRef w \<notin> snd ` set (values_of (eventMap w))"
    using assms by (auto simp: registry_ok_def)
  ultimately show ?thesis
    using assms None
    by (auto simp: registry_ok_def subscribe_def ensure_def log_def map_get_set_same
        values_of_map_set_new map_keys_def distinct_set_add less_Suc_eq)
next
  case (Some r)
  with assms show ?thesis
    by (auto simp: registry_ok_def subscribe_def ensure_def log_def distinct_set_add)
qed

lemma registry_ok_unsubscribe:
  assumes "registry_ok w"
  shows "registry_ok (unsubscribe key callback w)"
proof (cases "map_get (eventMap w) key")
  case None
  with assms show ?thesis by (simp add: unsubscribe_def)
next
  case (Some r)
  with assms show ?thesis
    by (auto simp: registry_ok_def unsubscribe_def Let_def distinct_set_delete
        map_keys_def values_of_map_delete distinct_map_filter)
qed

lemma no_empty_sets_subscribe:
  assumes "registry_ok w" and "no_empty_sets w" and "\<not> reached 0 (maxSubscribers cfg)"
  shows "no_empty_sets (snd (subscribe cfg key callback w))"
proof (cases "map_get (eventMap w) key")
  case None
  have "nextRef w \<notin> snd ` set (values_of (eventMap w))"
    using assms(1) by (auto simp: registry_ok_def)
  then have "(k, r) \<in> set (values_of (eventMap w)) \<Longrightarrow> r \<noteq> nextRef w" for k r
    by force
  with assms None show ?thesis
    by (auto simp: no_empty_sets_def subscribe_def ensure_def map_get_set_same
        values_of_map_set_new values_of_set_add)
next
  case (Some r)
  with assms show ?thesis
    by (auto simp: no_empty_sets_def subscribe_def ensure_def log_def values_of_set_add)
qed

lemma no_empty_sets_unsubscribe:
  assumes "registry_ok w" and "no_empty_sets w"
  shows "no_empty_sets (unsubscribe key callback w)"
proof (cases "map_get (eventMap w) key")
  case None
  with assms show ?thesis by (simp add: unsubscribe_def)
next
  case (Some r)
  then have in_map: "(key, r) \<in> set (values_of (eventMap w))"
    by (rule map_get_in)
  have other: "r' \<noteq> r" if "(k', r') \<in> set (values_of (eventMap w))" and "k' \<noteq> key" for k' r'
  proof
    assume "r' = r"
    with that in_map have "(k', r) \<in> set (values_of (eventMap w))" by simp
    moreover from assms(1) have "inj_on snd (set (values_of (eventMap w)))"
      by (simp add: registry_ok_def distinct_map)
    ultimately have "(k', r) = (key, r)"
      using in_map inj_onD [of snd "set (values_of (eventMap w))" "(k', r)" "(key, r)"]
      by simp
    with that show False by simp
  qed
  show ?thesis
  proof (cases "size_of (set_delete (sets w r) callback) = 0")
    case True
    with Some assms(2) other show ?thesis
      by (auto simp: no_empty_sets_def unsubscribe_def Let_def values_of_map_delete)
  next
    case False
    have "values_of (sets w r') \<noteq> [] \<Longrightarrow> r' \<noteq> r \<or> values_of (set_delete (sets w r) callback) \<noteq> []" for r'
      using False by (auto simp: size_of_def)
    with Some assms(2) False show ?thesis
      by (auto simp: no_empty_sets_def unsubscribe_def Let_def size_of_def)
  qed
qed

lemma no_empty_sets_clear: "no_empty_sets (clear w)"
  by (simp add: no_empty_sets_def clear_def)

lemma invariants_after:
  assumes "list_all admits_one ops" and "registry_ok w" and "no_empty_sets w"
  shows "registry_ok (foldl (\<lambda>w op. apply_operation op w) w ops)
       \<and> no_empty_sets (foldl (\<lambda>w op. apply_operation op w) w ops)"
  using assms
proof (induction ops arbitrary: w)
  case Nil
  then show ?case by simp
next
  case (Cons op ops)
  have "registry_ok (apply_operation op w) \<and> no_empty_sets (apply_operation op w)"
    using Cons.prems
    by (cases op)
       (simp_all add: registry_ok_subscribe registry_ok_unsubscribe registry_ok_clear
          no_empty_sets_subscribe no_empty_sets_unsubscribe no_empty_sets_clear)
  with Cons show ?case by simp
qed

lemma key_iff_nonempty:
  assumes "no_empty_sets w"
  shows "k \<in> set (getAllKeys w) \<longleftrightarrow> 0 < getSubscribersCount w k"
proof (cases "map_get (eventMap w) k")
  case None
  then show ?thesis
    using map_get_keys [of "eventMap w" k] by (simp add: getAllKeys_def getSubscribersCount_def)
next
  case (Some r)
  with assms map_get_in [OF Some] show ?thesis
    using map_get_keys [of "eventMap w" k]
    by (auto simp: getAllKeys_def getSubscribersCount_def no_empty_sets_def size_of_def)
qed

lemma registry_invariant:
  assumes "list_all admits_one ops"
  shows "k \<in> set (getAllKeys (after ops)) \<longleftrightarrow> 0 < getSubscribersCount (after ops) k"
  unfolding after_def
  using invariants_after [OF assms registry_ok_empty] key_iff_nonempty
  by (simp add: no_empty_sets_def emptyWorld_def)

lemma registry_distinct:
  "distinct (getAllKeys (after ops)) \<and> distinct (subscribersOf (after ops) k)"
proof -
  have "registry_ok w \<Longrightarrow> registry_ok (foldl (\<lambda>w op. apply_operation op w) w ops)" for w
  proof (induction ops arbitrary: w)
    case (Cons op ops)
    have "registry_ok (apply_operation op w)"
      using Cons.prems
      by (cases op) (simp_all add: registry_ok_subscribe registry_ok_unsubscribe registry_ok_clear)
    with Cons show ?case by simp
  qed simp
  from this [OF registry_ok_empty] show ?thesis
    by (auto simp: after_def registry_ok_def getAllKeys_def subscribersOf_def split: option.splits)
qed

subsection \<open>withTimeout\<close>

text \<open>
  Claim C3, as amended. \<open>withTimeout\<close> always sets its timer. A duration from
  1 to 2147483647 is enforced as it is: an operation that settles before it gives
  its result or failure unchanged, and when the timer comes first, or the
  operation never settles, the result is rejected with the error
  \<^verbatim>\<open>Async callback timeout\<close> at that time. A duration that is not positive does
  not switch the timeout off: like one above 2147483647 it is run as a timer of
  1 ms, so an operation that settles later than that, or never, is rejected with
  the timeout error after 1 ms. An operation that is settled already gives its
  result unchanged, whatever the duration.
\<close>

theorem withTimeout_race:
  "(1 \<le> timeout \<and> timeout \<le> 2147483647 \<and> int t < timeout \<longrightarrow>
      withTimeout (Settles t s) timeout = Settles t s)
   \<and> (1 \<le> timeout \<and> timeout \<le> 2147483647 \<and> timeout < int t \<longrightarrow>
      withTimeout (Settles t s) timeout = Settles (nat timeout) (Rejected timeoutError))
   \<and> (1 \<le> timeout \<and> timeout \<le> 2147483647 \<longrightarrow>
      withTimeout Pending timeout = Settles (nat timeout) (Rejected timeoutError))
   \<and> ((timeout < 1 \<or> 2147483647 < timeout) \<and> 1 < t \<longrightarrow>
      withTimeout (Settles t s) timeout = Settles 1 (Rejected timeoutError))
   \<and> (timeout < 1 \<or> 2147483647 < timeout \<longrightarrow>
      withTimeout Pending timeout = Settles 1 (Rejected timeoutError))
   \<and> withTimeout (Settles 0 s) timeout = Settles 0 s"
  by (auto simp: withTimeout_def timerDelay_def)

theorem withTimeout_race_witness:
  "(1::int) \<le> 50 \<and> (50::int) \<le> 2147483647 \<and> int 3 < 50
   \<and> withTimeout (Settles 3 (Fulfilled (Num 1))) 50 = Settles 3 (Fulfilled (Num 1))
   \<and> (50::int) < int 80
   \<and> withTimeout (Settles 80 (Rejected (Error ''late''))) 50 = Settles 50 (Rejected timeoutError)
   \<and> withTimeout Pending 50 = Settles 50 (Rejected timeoutError)
   \<and> (-1::int) < 1 \<and> (1::nat) < 80
   \<and> withTimeout (Settles 80 (Rejected (Error ''late''))) (-1) = Settles 1 (Rejected timeoutError)
   \<and> withTimeout Pending (-1) = Settles 1 (Rejected timeoutError)
   \<and> withTimeout (Settles 0 (Fulfilled (Num 1))) (-1) = Settles 0 (Fulfilled (Num 1))"
  using withTimeout_race [of 50 3 "Fulfilled (Num 1)"]
    withTimeout_race [of 50 80 "Rejected (Error ''late'')"]
    withTimeout_race [of "-1" 80 "Rejected (Error ''late'')"]
    withTimeout_race [of "-1" 0 "Fulfilled (Num 1)"]
  by simp

text \<open>
  The claim as it was stated takes a duration \<open>\<le> 0\<close> for "no timeout", the
  operation being awaited without bound, and every positive duration for the
  deadline. With the duration \<open>0\<close>, an operation that never settles is rejected
  with the timeout error instead of staying pending, and one that would be
  fulfilled after 5 ms is rejected too; with the duration 2147483648, an
  operation that is fulfilled after 50 ms is rejected after 1 ms.
\<close>

theorem withTimeout_nonpositive_counterexample:
  "withTimeout Pending 0 = Settles 1 (Rejected timeoutError)
   \<and> withTimeout Pending 0 \<noteq> Pending
   \<and> withTimeout (Settles 5 (Fulfilled (Num 1))) 0 = Settles 1 (Rejected timeoutError)
   \<and> withTimeout (Settles 5 (Fulfilled (Num 1))) 0 \<noteq> Settles 5 (Fulfilled (Num 1))
   \<and> withTimeout (Settles 50 (Fulfilled (Num 1))) 2147483648 = Settles 1 (Rejected timeoutError)
   \<and> withTimeout (Settles 50 (Fulfilled (Num 1))) 2147483648 \<noteq> Settles 50 (Fulfilled (Num 1))"
  by (simp add: withTimeout_def timerDelay_def)

subsection \<open>The loops of publishSync and publishAllSync\<close>

text \<open>
  When the function applied to the elements leaves the \<^verbatim>\<open>Set\<close> alone, the loop
  ends, and it is the fold over the elements that the \<^verbatim>\<open>Set\<close> holds from the
  slot \<open>i\<close> on. The induction is on the number of slots left.
\<close>

lemma set_forEach_fixed:
  assumes "\<And>cb s. sets (now (f cb s)) r = sets (now s) r"
  shows "set_forEach f r i st
           = Some (foldl (\<lambda>s cb. f cb s) st (values_of (drop i (sets (now st) r))))"
proof (induction "length (sets (now st) r) - i" arbitrary: i st)
  case 0
  then show ?case by (subst set_forEach.simps) simp
next
  case (Suc n)
  then have less: "i < length (sets (now st) r)" by simp
  then have split: "drop i (sets (now st) r)
                      = sets (now st) r ! i # drop (Suc i) (sets (now st) r)"
    by (simp add: Cons_nth_drop_Suc)
  show ?case
  proof (cases "sets (now st) r ! i")
    case None
    have "n = length (sets (now st) r) - Suc i" using Suc.hyps(2) by simp
    from Suc.hyps(1) [OF this] less None split show ?thesis
      by (subst set_forEach.simps) simp
  next
    case (Some cb)
    have "n = length (sets (now (f cb st)) r) - Suc i"
      using Suc.hyps(2) by (simp add: assms)
    from Suc.hyps(1) [OF this] less Some split show ?thesis
      by (subst set_forEach.simps) (simp add: assms)
  qed
qed

lemma try_callback_frame:
  assumes "preserves_registry beh"
  shows "eventMap (now (try_callback beh key args cb st)) = eventMap (now st)"
    and "sets (now (try_callback beh key args cb st)) = sets (now st)"
    and "invoked (try_callback beh key args cb st) = invoked st @ [(cb, args)]"
proof -
  obtain c w' where b: "beh cb args (now st) = (c, w')"
    by (cases "beh cb args (now st)")
  with assms have "eventMap w' = eventMap (now st) \<and> sets w' = sets (now st)"
    unfolding preserves_registry_def by (metis snd_conv)
  with b show "eventMap (now (try_callback beh key args cb st)) = eventMap (now st)"
    and "sets (now (try_callback beh key args cb st)) = sets (now st)"
    and "invoked (try_callback beh key args cb st) = invoked st @ [(cb, args)]"
    by (cases c; simp add: try_callback_def)+
qed

lemma foldl_try_callback:
  assumes "preserves_registry beh"
  shows "eventMap (now (foldl (\<lambda>s cb. try_callback beh key args cb s) st cbs))
           = eventMap (now st)
       \<and> sets (now (foldl (\<lambda>s cb. try_callback beh key args cb s) st cbs)) = sets (now st)
       \<and> invoked (foldl (\<lambda>s cb. try_callback beh key args cb s) st cbs)
           = invoked st @ map (\<lambda>cb. (cb, args)) cbs"
  by (induction cbs arbitrary: st) (simp_all add: try_callback_frame [OF assms])

lemma set_forEach_try_callback:
  assumes "preserves_registry beh"
  shows "set_forEach (try_callback beh key args) r 0 st
           = Some (foldl (\<lambda>s cb. try_callback beh key args cb s) st
                     (values_of (sets (now st) r)))"
  using set_forEach_fixed [of "try_callback beh key args" r 0 st]
  by (simp add: try_callback_frame [OF assms])

lemma publishSync_fixed:
  assumes "preserves_registry beh"
  shows "publishSync beh key args w
           = Some (foldl (\<lambda>s cb. try_callback beh (Some key) args cb s)
                     \<lparr>now = w, invoked = []\<rparr> (subscribersOf w key))"
  by (cases "map_get (eventMap w) key")
     (simp_all add: publishSync_def subscribersOf_def set_forEach_try_callback [OF assms])

lemma count_list_distinct:
  "distinct xs \<Longrightarrow> x \<in> set xs \<Longrightarrow> count_list (map (\<lambda>cb. (cb, args)) xs) (x, args) = 1"
  by (induction xs) (auto simp: image_iff)

text \<open>
  The loops under the proviso that the calls leave the subscribers still to be
  called as they are. The induction is on the number of subscribers still to be
  called and, within it, on the number of slots left: a call may lengthen the
  list of slots, but it shortens the list of subscribers still to be called.
  Subscribers that leave the registry alone satisfy the proviso
  (\<open>preserves_registry_undisturbed\<close>); \<open>first_leaves_and_throws\<close> satisfies it in
  the example although it changes the registry.
\<close>

lemma invoked_try_callback:
  "invoked (try_callback beh key args cb st) = invoked st @ [(cb, args)]"
  by (cases "beh cb args (now st)"; cases "fst (beh cb args (now st))")
     (simp_all add: try_callback_def)

lemma rest_of_set_step:
  assumes "i < length (sets (now st) r)"
  shows "rest_of_set r i st =
           (case sets (now st) r ! i of None \<Rightarrow> rest_of_set r (Suc i) st
            | Some cb \<Rightarrow> cb # rest_of_set r (Suc i) st)"
proof -
  from assms have "drop i (sets (now st) r) = sets (now st) r ! i # drop (Suc i) (sets (now st) r)"
    by (simp add: Cons_nth_drop_Suc)
  then show ?thesis
    by (cases "sets (now st) r ! i") (simp_all add: rest_of_set_def)
qed

lemma set_forEach_undisturbed:
  assumes U: "set_undisturbed f r st0"
    and A: "\<And>cb s. invoked (f cb s) = invoked s @ [(cb, args)]"
  shows "set_walk f r st0 i st \<Longrightarrow> length (rest_of_set r i st) \<le> n \<Longrightarrow>
         \<exists>st'. set_forEach f r i st = Some st'
              \<and> invoked st' = invoked st @ map (\<lambda>cb. (cb, args)) (rest_of_set r i st)
              \<and> (\<exists>j. set_walk f r st0 j st')"
proof (induction n arbitrary: i st rule: less_induct)
  case (less n)
  from less.prems show ?case
  proof (induction "length (sets (now st) r) - i" arbitrary: i)
    case 0
    then have "\<not> i < length (sets (now st) r)" by simp
    with "0.prems"(1) show ?case
      by (subst set_forEach.simps) (auto simp: rest_of_set_def)
  next
    case (Suc m)
    then have lt: "i < length (sets (now st) r)" by simp
    show ?case
    proof (cases "sets (now st) r ! i")
      case None
      have w: "set_walk f r st0 (Suc i) st"
        using Suc.prems(1) lt None by (rule set_walk.skip)
      have e: "rest_of_set r i st = rest_of_set r (Suc i) st"
        using rest_of_set_step [OF lt] None by simp
      have "m = length (sets (now st) r) - Suc i" using Suc.hyps(2) by simp
      from Suc.hyps(1) [OF this w] Suc.prems(2) e
      obtain st' where "set_forEach f r (Suc i) st = Some st'"
        and "invoked st' = invoked st @ map (\<lambda>cb. (cb, args)) (rest_of_set r i st)"
        and "\<exists>j. set_walk f r st0 j st'"
        by auto
      with lt None show ?thesis by (subst set_forEach.simps) simp
    next
      case (Some cb)
      have w: "set_walk f r st0 (Suc i) (f cb st)"
        using Suc.prems(1) lt Some by (rule set_walk.call)
      have k: "rest_of_set r (Suc i) (f cb st) = rest_of_set r (Suc i) st"
        using U Suc.prems(1) lt Some unfolding set_undisturbed_def by blast
      have e: "rest_of_set r i st = cb # rest_of_set r (Suc i) st"
        using rest_of_set_step [OF lt] Some by simp
      with k Suc.prems(2) have "length (rest_of_set r (Suc i) (f cb st)) < n" by simp
      from less.IH [OF this w order_refl]
      obtain st' where "set_forEach f r (Suc i) (f cb st) = Some st'"
        and "invoked st' = invoked (f cb st)
               @ map (\<lambda>cb. (cb, args)) (rest_of_set r (Suc i) (f cb st))"
        and "\<exists>j. set_walk f r st0 j st'"
        by auto
      with lt Some e k show ?thesis by (subst set_forEach.simps) (simp add: A)
    qed
  qed
qed

lemma set_forEach_nothing:
  "values_of (drop i (sets (now st) r)) = [] \<Longrightarrow> set_forEach f r i st = Some st"
proof (induction "length (sets (now st) r) - i" arbitrary: i)
  case 0
  then show ?case by (subst set_forEach.simps) simp
next
  case (Suc m)
  then have lt: "i < length (sets (now st) r)" by simp
  from lt have "drop i (sets (now st) r) = sets (now st) r ! i # drop (Suc i) (sets (now st) r)"
    by (simp add: Cons_nth_drop_Suc)
  with Suc.prems
  have n: "sets (now st) r ! i = None" and d: "values_of (drop (Suc i) (sets (now st) r)) = []"
    by (cases "sets (now st) r ! i"; simp)+
  have "m = length (sets (now st) r) - Suc i" using Suc.hyps(2) by simp
  from Suc.hyps(1) [OF this d] lt n show ?case by (subst set_forEach.simps) simp
qed

lemma rest_of_map_step:
  assumes "i < length (eventMap (now st))"
  shows "rest_of_map i st =
           (case eventMap (now st) ! i of None \<Rightarrow> rest_of_map (Suc i) st
            | Some e \<Rightarrow> values_of (sets (now st) (snd e)) @ rest_of_map (Suc i) st)"
proof -
  from assms have "drop i (eventMap (now st))
                     = eventMap (now st) ! i # drop (Suc i) (eventMap (now st))"
    by (simp add: Cons_nth_drop_Suc)
  then show ?thesis
    by (cases "eventMap (now st) ! i") (simp_all add: rest_of_map_def)
qed

lemma map_forEach_undisturbed:
  fixes f :: "Subscriber \<Rightarrow> run \<Rightarrow> run"
  defines "g \<equiv> \<lambda>r. set_forEach f r 0"
  assumes U: "\<And>i st key r. map_walk g st0 i st \<Longrightarrow> i < length (eventMap (now st)) \<Longrightarrow>
               eventMap (now st) ! i = Some (key, r) \<Longrightarrow>
               set_undisturbed f r st
               \<and> (\<forall>st'. g r st = Some st' \<longrightarrow> rest_of_map (Suc i) st' = rest_of_map (Suc i) st)"
    and A: "\<And>cb s. invoked (f cb s) = invoked s @ [(cb, args)]"
  shows "map_walk g st0 i st \<Longrightarrow> length (rest_of_map i st) \<le> n \<Longrightarrow>
         \<exists>st'. map_forEach g i st = Some st'
              \<and> invoked st' = invoked st @ map (\<lambda>cb. (cb, args)) (rest_of_map i st)"
proof (induction n arbitrary: i st rule: less_induct)
  case (less n)
  from less.prems show ?case
  proof (induction "length (eventMap (now st)) - i" arbitrary: i)
    case 0
    then have "\<not> i < length (eventMap (now st))" by simp
    then show ?case by (subst map_forEach.simps) (simp add: rest_of_map_def)
  next
    case (Suc m)
    then have lt: "i < length (eventMap (now st))" by simp
    have m: "m = length (eventMap (now st)) - Suc i" using Suc.hyps(2) by simp
    show ?case
    proof (cases "eventMap (now st) ! i")
      case None
      have w: "map_walk g st0 (Suc i) st"
        using Suc.prems(1) lt None by (rule map_walk.skip)
      have e: "rest_of_map i st = rest_of_map (Suc i) st"
        using rest_of_map_step [OF lt] None by simp
      from Suc.hyps(1) [OF m w] Suc.prems(2) e
      obtain st' where "map_forEach g (Suc i) st = Some st'"
        and "invoked st' = invoked st @ map (\<lambda>cb. (cb, args)) (rest_of_map i st)"
        by auto
      with lt None show ?thesis by (subst map_forEach.simps) simp
    next
      case (Some e)
      obtain key r where kr: "e = (key, r)" by (cases e)
      with Some have entry: "eventMap (now st) ! i = Some (key, r)" by simp
      have r: "rest_of_map i st = values_of (sets (now st) r) @ rest_of_map (Suc i) st"
        using rest_of_map_step [OF lt] entry by simp
      from U [OF Suc.prems(1) lt entry]
      have su: "set_undisturbed f r st"
        and keep: "\<And>st'. g r st = Some st' \<Longrightarrow> rest_of_map (Suc i) st' = rest_of_map (Suc i) st"
        by auto
      show ?thesis
      proof (cases "values_of (sets (now st) r) = []")
        case True
        then have same: "g r st = Some st"
          unfolding g_def using set_forEach_nothing [of 0 st r f] by simp
        have w: "map_walk g st0 (Suc i) st"
          using Suc.prems(1) lt entry same by (rule map_walk.turn)
        from Suc.hyps(1) [OF m w] Suc.prems(2) r True
        obtain st' where "map_forEach g (Suc i) st = Some st'"
          and "invoked st' = invoked st @ map (\<lambda>cb. (cb, args)) (rest_of_map i st)"
          by auto
        with lt entry same show ?thesis by (subst map_forEach.simps) simp
      next
        case False
        from set_forEach_undisturbed [OF su A set_walk.start order_refl]
        obtain st1 where g1: "g r st = Some st1"
          and i1: "invoked st1 = invoked st @ map (\<lambda>cb. (cb, args)) (values_of (sets (now st) r))"
          unfolding g_def by (auto simp: rest_of_set_def)
        have w: "map_walk g st0 (Suc i) st1"
          using Suc.prems(1) lt entry g1 by (rule map_walk.turn)
        have k: "rest_of_map (Suc i) st1 = rest_of_map (Suc i) st" by (rule keep [OF g1])
        with r False Suc.prems(2) have "length (rest_of_map (Suc i) st1) < n"
          by (cases "values_of (sets (now st) r)") simp_all
        from less.IH [OF this w order_refl]
        obtain st' where "map_forEach g (Suc i) st1 = Some st'"
          and "invoked st' = invoked st1 @ map (\<lambda>cb. (cb, args)) (rest_of_map (Suc i) st1)"
          by auto
        with lt entry g1 i1 k r show ?thesis by (subst map_forEach.simps) simp
      qed
    qed
  qed
qed

lemma rest_of_map_by_keys:
  assumes "distinct (getAllKeys w)"
  shows "map (\<lambda>cb. (cb, args)) (rest_of_map 0 \<lparr>now = w, invoked = []\<rparr>)
           = concat (map (\<lambda>k. map (\<lambda>cb. (cb, args)) (subscribersOf w k)) (getAllKeys w))"
proof -
  have "(k, r) \<in> set (values_of (eventMap w)) \<Longrightarrow> subscribersOf w k = values_of (sets w r)"
    for k r
    using assms map_get_distinct [of "eventMap w" k r]
    by (simp add: getAllKeys_def subscribersOf_def set_values_of)
  then have "map (\<lambda>e. values_of (sets w (snd e))) (values_of (eventMap w))
               = map (\<lambda>k. subscribersOf w k) (getAllKeys w)"
    by (auto simp: getAllKeys_def map_keys_def)
  then show ?thesis
    by (simp add: rest_of_map_def map_concat comp_def)
qed

lemma preserves_registry_undisturbed:
  assumes "preserves_registry beh"
  shows "publishSync_undisturbed beh key args w"
    and "publishAllSync_undisturbed beh args w"
proof -
  have s: "set_undisturbed (try_callback beh k args) r st" for k r st
    by (simp add: set_undisturbed_def rest_of_set_def try_callback_frame(2) [OF assms])
  show "publishSync_undisturbed beh key args w"
    by (simp add: publishSync_undisturbed_def s)
  have "rest_of_map j st' = rest_of_map j st"
    if "set_forEach (try_callback beh None args) r 0 st = Some st'" for r st st' j
    using that set_forEach_try_callback [OF assms, of None args r st]
      foldl_try_callback [OF assms, of None args st "values_of (sets (now st) r)"]
    by (auto simp: rest_of_map_def)
  with s show "publishAllSync_undisturbed beh args w"
    by (simp add: publishAllSync_undisturbed_def)
qed

lemma leaves_keeps:
  assumes "a12_or_a2 st"
  shows "a12_or_a2 (try_callback first_leaves_and_throws key args cb st)"
    and "i < length (sets (now st) 0) \<Longrightarrow> sets (now st) 0 ! i = Some cb \<Longrightarrow>
         rest_of_set 0 (Suc i) (try_callback first_leaves_and_throws key args cb st)
           = rest_of_set 0 (Suc i) st"
  using assms
  by (auto simp: a12_or_a2_def try_callback_def first_leaves_and_throws_def unsubscribe_def
      set_delete_def size_of_def rest_of_set_def less_Suc_eq nth_Cons')

lemma leaves_walk:
  "set_walk (try_callback first_leaves_and_throws key args) r st0 i st \<Longrightarrow>
   a12_or_a2 st0 \<Longrightarrow> a12_or_a2 st"
  by (induction rule: set_walk.induct) (simp_all add: leaves_keeps(1))

lemma leaves_undisturbed:
  assumes "a12_or_a2 st0"
  shows "set_undisturbed (try_callback first_leaves_and_throws key args) 0 st0"
  unfolding set_undisturbed_def
  using leaves_keeps(2) leaves_walk [OF _ assms] by blast

lemma leaves_turn:
  assumes "a12_or_a2 st" and "set_forEach (try_callback first_leaves_and_throws key args) 0 0 st = Some st'"
  shows "a12_or_a2 st'"
  using set_forEach_undisturbed [OF leaves_undisturbed [OF assms(1)] invoked_try_callback
      set_walk.start order_refl, of key args] assms leaves_walk
  by auto

lemma leaves_map_walk:
  "map_walk (\<lambda>r. set_forEach (try_callback first_leaves_and_throws key args) r 0) st0 i st \<Longrightarrow>
   a12_or_a2 st0 \<Longrightarrow> a12_or_a2 st"
proof (induction rule: map_walk.induct)
  case (turn i st k r st')
  then have "a12_or_a2 st" by simp
  moreover from this turn.hyps(2,3) have "r = 0"
    by (auto simp: a12_or_a2_def)
  ultimately show ?case using turn.hyps(4) leaves_turn by blast
qed simp_all

lemma a12_start: "a12_or_a2 \<lparr>now = world_a12, invoked = []\<rparr>"
  by (simp add: a12_or_a2_def world_a12_eq)

lemma leaves_changes_registry: "\<not> preserves_registry first_leaves_and_throws"
proof
  assume "preserves_registry first_leaves_and_throws"
  then have "sets (snd (first_leaves_and_throws 1 [] world_a12)) = sets world_a12"
    unfolding preserves_registry_def by blast
  then have "sets (snd (first_leaves_and_throws 1 [] world_a12)) 0 = sets world_a12 0"
    by simp
  then show False
    by (simp add: first_leaves_and_throws_def world_a12_eq unsubscribe_def set_delete_def
        size_of_def)
qed

text \<open>
  Claim C6, as amended. Provided that every subscriber called during the
  publish leaves the subscribers still to be called in it as they are (after
  each call, those after the called one in the set that is walked; in
  \<open>publishAllSync\<close> also, after the turn of each key, those of the keys still to
  come), one call of \<open>publishSync key args\<close> returns after calling the subscribers
  that \<open>key\<close> had when the publish began, with \<open>args\<close>, in insertion order,
  whether or not some of them throw, and each of them exactly once (a \<^verbatim>\<open>Set\<close>
  holds no element twice); \<open>publishAllSync args\<close> returns after doing the same
  for every key in turn (the keys of a registry being distinct). Both kinds of
  distinctness hold after every sequence of registry operations
  (\<open>registry_distinct\<close>).
\<close>

theorem publishSync_in_order:
  "(publishSync_undisturbed beh key args w \<longrightarrow>
      map_option invoked (publishSync beh key args w)
        = Some (map (\<lambda>cb. (cb, args)) (subscribersOf w key))
      \<and> (distinct (subscribersOf w key) \<longrightarrow>
           (\<forall>cb \<in> set (subscribersOf w key).
              map_option (\<lambda>st. count_list (invoked st) (cb, args))
                (publishSync beh key args w) = Some 1)))
   \<and> (publishAllSync_undisturbed beh args w \<longrightarrow> distinct (getAllKeys w) \<longrightarrow>
        map_option invoked (publishAllSync beh args w)
          = Some (concat (map (\<lambda>k. map (\<lambda>cb. (cb, args)) (subscribersOf w k))
                            (getAllKeys w))))"
proof (intro conjI impI)
  assume u: "publishSync_undisturbed beh key args w"
  show one: "map_option invoked (publishSync beh key args w)
               = Some (map (\<lambda>cb. (cb, args)) (subscribersOf w key))"
  proof (cases "map_get (eventMap w) key")
    case None
    then show ?thesis by (simp add: publishSync_def subscribersOf_def)
  next
    case (Some r)
    with u have "set_undisturbed (try_callback beh (Some key) args) r \<lparr>now = w, invoked = []\<rparr>"
      by (simp add: publishSync_undisturbed_def)
    from set_forEach_undisturbed [OF this invoked_try_callback set_walk.start order_refl] Some
    show ?thesis
      by (auto simp: publishSync_def subscribersOf_def rest_of_set_def)
  qed
  assume "distinct (subscribersOf w key)"
  with one show "\<forall>cb \<in> set (subscribersOf w key).
              map_option (\<lambda>st. count_list (invoked st) (cb, args))
                (publishSync beh key args w) = Some 1"
    by (cases "publishSync beh key args w") (auto simp: count_list_distinct)
next
  assume u: "publishAllSync_undisturbed beh args w" and d: "distinct (getAllKeys w)"
  let ?f = "try_callback beh None args"
  from u have "\<And>i st key r. map_walk (\<lambda>r. set_forEach ?f r 0) \<lparr>now = w, invoked = []\<rparr> i st \<Longrightarrow>
       i < length (eventMap (now st)) \<Longrightarrow> eventMap (now st) ! i = Some (key, r) \<Longrightarrow>
       set_undisturbed ?f r st
       \<and> (\<forall>st'. set_forEach ?f r 0 st = Some st' \<longrightarrow>
              rest_of_map (Suc i) st' = rest_of_map (Suc i) st)"
    unfolding publishAllSync_undisturbed_def by blast
  from map_forEach_undisturbed [of ?f "\<lparr>now = w, invoked = []\<rparr>", OF this invoked_try_callback
      map_walk.start order_refl]
  show "map_option invoked (publishAllSync beh args w)
          = Some (concat (map (\<lambda>k. map (\<lambda>cb. (cb, args)) (subscribersOf w k)) (getAllKeys w)))"
    using rest_of_map_by_keys [OF d, of args]
    by (auto simp: publishAllSync_def)
qed

text \<open>
  The example of the claim: two subscribers of \<open>"a"\<close>, the first of which
  throws, here after it has unsubscribed itself; the second is still called
  with \<open>42\<close>.
\<close>

theorem publishSync_in_order_witness:
  "publishSync_undisturbed first_leaves_and_throws (KStr ''a'') [Num 42] world_a12
   \<and> map_option invoked (publishSync first_leaves_and_throws (KStr ''a'') [Num 42] world_a12)
       = Some [(1, [Num 42]), (2, [Num 42])]
   \<and> distinct (subscribersOf world_a12 (KStr ''a''))
   \<and> 2 \<in> set (subscribersOf world_a12 (KStr ''a''))
   \<and> map_option (\<lambda>st. count_list (invoked st) (2, [Num 42]))
        (publishSync first_leaves_and_throws (KStr ''a'') [Num 42] world_a12) = Some 1
   \<and> publishAllSync_undisturbed first_leaves_and_throws [Num 42] world_a12
   \<and> distinct (getAllKeys world_a12)
   \<and> map_option invoked (publishAllSync first_leaves_and_throws [Num 42] world_a12)
       = Some [(1, [Num 42]), (2, [Num 42])]"
proof -
  have c: "subscribersOf world_a12 (KStr ''a'') = [1, 2]" "getAllKeys world_a12 = [KStr ''a'']"
    by (simp_all add: world_a12_eq subscribersOf_def getAllKeys_def map_keys_def)
  have r: "map_get (eventMap world_a12) (KStr ''a'') = Some r \<Longrightarrow> r = 0" for r
    by (simp add: world_a12_eq)
  have u1: "publishSync_undisturbed first_leaves_and_throws (KStr ''a'') [Num 42] world_a12"
    unfolding publishSync_undisturbed_def using r leaves_undisturbed [OF a12_start] by blast
  have u2: "publishAllSync_undisturbed first_leaves_and_throws [Num 42] world_a12"
    unfolding publishAllSync_undisturbed_def
  proof (intro allI impI)
    fix i st key r
    assume w: "map_walk (\<lambda>r. set_forEach (try_callback first_leaves_and_throws None [Num 42]) r 0)
                 \<lparr>now = world_a12, invoked = []\<rparr> i st"
      and i: "i < length (eventMap (now st))" and e: "eventMap (now st) ! i = Some (key, r)"
    from leaves_map_walk [OF w a12_start] have a: "a12_or_a2 st" .
    with i e have r0: "r = 0" and i0: "i = 0" by (auto simp: a12_or_a2_def)
    have "rest_of_map (Suc 0) st' = rest_of_map (Suc 0) st"
      if "set_forEach (try_callback first_leaves_and_throws None [Num 42]) 0 0 st = Some st'" for st'
      using leaves_turn [OF a that] a by (simp add: rest_of_map_def a12_or_a2_def)
    with leaves_undisturbed [OF a] r0 i0
    show "set_undisturbed (try_callback first_leaves_and_throws None [Num 42]) r st \<and>
          (\<forall>st'. set_forEach (try_callback first_leaves_and_throws None [Num 42]) r 0 st = Some st' \<longrightarrow>
                 rest_of_map (Suc i) st' = rest_of_map (Suc i) st)"
      by simp
  qed
  show ?thesis
    using publishSync_in_order [of first_leaves_and_throws "KStr ''a''" "[Num 42]" world_a12]
    by (simp add: u1 u2 c)
qed

text \<open>
  The claim as it was stated, for all subscribers, fails in the following run,
  \<open>forEach\<close> walking the live \<^verbatim>\<open>Set\<close>. With \<open>f1\<close>, \<open>f2\<close> and \<open>f3\<close>
  subscribed to \<open>"a"\<close> and \<open>f3\<close> unsubscribing and subscribing \<open>f2\<close> again,
  \<^verbatim>\<open>publishSync("a", 42)\<close> calls \<open>f1\<close>, \<open>f2\<close>, \<open>f3\<close> and then \<open>f2\<close> a second time.
\<close>

theorem publishSync_reentrant_counterexample:
  "subscribersOf world_a123 (KStr ''a'') = [1, 2, 3]
   \<and> map_option invoked (publishSync third_resubscribes_second (KStr ''a'') [Num 42] world_a123)
       = Some [(1, [Num 42]), (2, [Num 42]), (3, [Num 42]), (2, [Num 42])]
   \<and> map_option (\<lambda>st. subscribersOf (now st) (KStr ''a''))
        (publishSync third_resubscribes_second (KStr ''a'') [Num 42] world_a123)
       = Some [1, 3, 2]"
  by (simp add: world_a123_eq publishSync_def set_forEach.simps try_callback_def
      third_resubscribes_second_def registry_defs)

text \<open>
  A second run: with \<open>f1\<close> and \<open>f2\<close> subscribed to \<open>"a"\<close> and \<open>f1\<close> calling
  \<^verbatim>\<open>unsubscribe("a", f2)\<close>, only \<open>f1\<close> is called.
\<close>

lemma publishSync_skips_unsubscribed:
  "subscribersOf world_a12 (KStr ''a'') = [1, 2]
   \<and> map_option invoked (publishSync first_unsubscribes_second (KStr ''a'') [Num 42] world_a12)
       = Some [(1, [Num 42])]"
  by (simp add: world_a12_eq subscribersOf_def publishSync_def set_forEach.simps
      try_callback_def first_unsubscribes_second_def unsubscribe_def set_delete_def size_of_def)

subsection \<open>publish and publishAll\<close>

lemma start_callback_frame:
  assumes "preserves_registry beh"
  shows "start_callback beh cfg key args cb b = Inl (e, b') \<Longrightarrow>
           eventMap (world_of b') = eventMap (world_of b) \<and> sets (world_of b') = sets (world_of b)"
    and "start_callback beh cfg key args cb b = Inr b' \<Longrightarrow>
           eventMap (world_of b') = eventMap (world_of b) \<and> sets (world_of b') = sets (world_of b)"
proof -
  obtain c w' where b: "beh cb args (world_of b) = (c, w')"
    by (cases "beh cb args (world_of b)")
  with assms have w': "eventMap w' = eventMap (world_of b) \<and> sets w' = sets (world_of b)"
    unfolding preserves_registry_def by (metis snd_conv)
  show "start_callback beh cfg key args cb b = Inl (e, b') \<Longrightarrow>
           eventMap (world_of b') = eventMap (world_of b) \<and> sets (world_of b') = sets (world_of b)"
    using b w' by (cases c) (auto simp: start_callback_def split: prod.splits)
  show "start_callback beh cfg key args cb b = Inr b' \<Longrightarrow>
           eventMap (world_of b') = eventMap (world_of b) \<and> sets (world_of b') = sets (world_of b)"
    using b w' by (cases c) (auto simp: start_callback_def split: prod.splits)
qed

lemma start_all_frame:
  assumes "preserves_registry beh"
  shows "eventMap (world_of (snd (finish (start_all beh cfg key args cbs b))))
           = eventMap (world_of b)
       \<and> sets (world_of (snd (finish (start_all beh cfg key args cbs b)))) = sets (world_of b)"
proof (induction cbs arbitrary: b)
  case Nil
  then show ?case by simp
next
  case (Cons cb cbs)
  show ?case
  proof (cases "start_callback beh cfg key args cb b")
    case (Inl thrown)
    obtain e b' where "thrown = (e, b')" by (cases thrown)
    with Inl start_callback_frame(1) [OF assms] show ?thesis by simp
  next
    case (Inr b')
    with Cons.IH [of b'] start_callback_frame(2) [OF assms] show ?thesis
      by simp
  qed
qed

lemma publish_frame:
  assumes "preserves_registry beh"
  shows "eventMap (world_of (snd (publish beh cfg key args w))) = eventMap w
       \<and> sets (world_of (snd (publish beh cfg key args w))) = sets w"
  by (cases "map_get (eventMap w) key")
     (simp_all add: publish_def batch0_def start_all_frame [OF assms])

text \<open>
  Claim C10. Provided the subscribers do not themselves call \<open>subscribe\<close>,
  \<open>unsubscribe\<close> or \<open>clear\<close>, \<open>publishSync\<close> returns and \<open>publish\<close> hands back its
  promise with the registry as it was: the map and every set are unchanged, and
  so are the subscribers and the count of every key and the list of keys.
\<close>

theorem publish_leaves_registry:
  assumes "preserves_registry beh"
  shows "(\<exists>st. publishSync beh key args w = Some st
            \<and> eventMap (now st) = eventMap w \<and> sets (now st) = sets w
            \<and> (\<forall>k. subscribersOf (now st) k = subscribersOf w k
                   \<and> getSubscribersCount (now st) k = getSubscribersCount w k)
            \<and> getAllKeys (now st) = getAllKeys w)
       \<and> (\<exists>p b. publish beh cfg key args w = (p, b)
            \<and> eventMap (world_of b) = eventMap w \<and> sets (world_of b) = sets w
            \<and> (\<forall>k. subscribersOf (world_of b) k = subscribersOf w k
                   \<and> getSubscribersCount (world_of b) k = getSubscribersCount w k)
            \<and> getAllKeys (world_of b) = getAllKeys w)"
proof -
  let ?st = "foldl (\<lambda>s cb. try_callback beh (Some key) args cb s)
               \<lparr>now = w, invoked = []\<rparr> (subscribersOf w key)"
  have 1: "publishSync beh key args w = Some ?st"
    by (rule publishSync_fixed [OF assms])
  have 2: "eventMap (now ?st) = eventMap w" "sets (now ?st) = sets w"
    by (simp_all add: foldl_try_callback [OF assms])
  obtain p b where 3: "publish beh cfg key args w = (p, b)"
    by (cases "publish beh cfg key args w")
  with publish_frame [OF assms, of cfg key args w]
  have 4: "eventMap (world_of b) = eventMap w" "sets (world_of b) = sets w"
    by simp_all
  show ?thesis
    using 1 2 3 4 observers_frame [OF 2] observers_frame [OF 4] by simp
qed

theorem publish_leaves_registry_witness:
  "preserves_registry first_throws
   \<and> (\<exists>st. publishSync first_throws (KStr ''a'') [Num 42] world_a12 = Some st
         \<and> getSubscribersCount (now st) (KStr ''a'') = 2
         \<and> getAllKeys (now st) = [KStr ''a''])
   \<and> (\<exists>p b. publish first_throws defaultConfig (KStr ''a'') [Num 42] world_a12 = (p, b)
         \<and> getSubscribersCount (world_of b) (KStr ''a'') = 2
         \<and> getAllKeys (world_of b) = [KStr ''a''])"
proof -
  have c: "getSubscribersCount world_a12 (KStr ''a'') = 2" "getAllKeys world_a12 = [KStr ''a'']"
    by (simp_all add: world_a12_eq getSubscribersCount_def getAllKeys_def map_keys_def size_of_def)
  show ?thesis
    using publish_leaves_registry [OF preserves_first_throws,
        of "KStr ''a''" "[Num 42]" world_a12 defaultConfig]
    by (fastforce simp: preserves_first_throws c)
qed

text \<open>
  Claim C1 says that \<open>publish\<close> and \<open>publishAll\<close> resolve even when a subscriber
  throws synchronously. With \<open>f1\<close> and \<open>f2\<close> subscribed to \<open>"a"\<close> and \<open>f1\<close> a
  plain function that throws, the promise of \<^verbatim>\<open>publish("a", 42)\<close> is rejected with
  the error that \<open>f1\<close> threw, \<open>f2\<close> is never called, and the promise of
  \<^verbatim>\<open>publishAll(42)\<close> is rejected likewise: the callback is called inside \<^verbatim>\<open>map\<close>,
  before \<^verbatim>\<open>withTimeout\<close> and \<^verbatim>\<open>catch\<close> are reached.
\<close>

theorem publish_rejects_on_synchronous_throw:
  "fst (publish first_throws defaultConfig (KStr ''a'') [Num 42] world_a12)
     = Settles 0 (Rejected (Error ''boom''))
   \<and> started (snd (publish first_throws defaultConfig (KStr ''a'') [Num 42] world_a12))
     = [(1, [Num 42])]
   \<and> fst (publishAll first_throws defaultConfig [Num 42] world_a12)
     = Settles 0 (Rejected (Error ''boom''))"
  by (simp add: world_a12_eq publish_def publishAll_def batch0_def start_callback_def
      first_throws_def)

text \<open>
  What does hold of \<open>publish\<close> and \<open>publishAll\<close>: when no subscriber throws
  synchronously, the promise is fulfilled, and no later than the timeout, whatever
  the promises of the subscribers do.
\<close>

lemma wrapped_fulfilled:
  "fulfilled_by (timerDelay timeout) (fst (catch_handleError key (withTimeout p timeout)))"
proof (cases p)
  case (Settles t s)
  then show ?thesis
    by (cases s) (simp_all add: catch_handleError_def withTimeout_def)
next
  case Pending
  then show ?thesis by (simp add: catch_handleError_def withTimeout_def)
qed

lemma await_all_fulfilled:
  assumes "list_all (fulfilled_by d) ps"
  shows "\<exists>t\<le>d. await_all ps = Settles t (Fulfilled Undefined)"
proof -
  have r: "rejections ps = []" using assms
    by (induction ps rule: rejections.induct) auto
  have p: "Pending \<notin> set ps" using assms
    by (induction ps) (auto elim: fulfilled_by.elims)
  have m: "foldr max (map settleTime ps) 0 \<le> d" using assms
    by (induction ps) (auto elim!: fulfilled_by.elims)
  from r p m show ?thesis by (simp add: await_all_def)
qed

lemma start_callback_never_throws:
  assumes "never_throws beh"
  shows "\<exists>b'. start_callback beh cfg key args cb b = Inr b'
            \<and> (list_all (fulfilled_by (timerDelay (asyncTimeout cfg))) (promises b)
                 \<longrightarrow> list_all (fulfilled_by (timerDelay (asyncTimeout cfg))) (promises b'))"
proof -
  obtain c w' where b: "beh cb args (world_of b) = (c, w')"
    by (cases "beh cb args (world_of b)")
  with assms obtain v where c: "c = Returns v"
    unfolding never_throws_def by (cases c) (metis fst_conv)+
  show ?thesis
    using b c wrapped_fulfilled [of "asyncTimeout cfg" key "promise_resolve v"]
    by (auto simp: start_callback_def split: prod.splits)
qed

lemma start_all_never_throws:
  assumes "never_throws beh"
    and "list_all (fulfilled_by (timerDelay (asyncTimeout cfg))) (promises b)"
  shows "\<exists>b'. start_all beh cfg key args cbs b = Inr b'
            \<and> list_all (fulfilled_by (timerDelay (asyncTimeout cfg))) (promises b')"
  using assms(2)
proof (induction cbs arbitrary: b)
  case Nil
  then show ?case by simp
next
  case (Cons cb cbs)
  from start_callback_never_throws [OF assms(1), of cfg key args cb b] Cons.prems
  obtain b1 where "start_callback beh cfg key args cb b = Inr b1"
    and "list_all (fulfilled_by (timerDelay (asyncTimeout cfg))) (promises b1)"
    by blast
  with Cons.IH [of b1] show ?case by simp
qed

lemma start_sets_never_throws:
  assumes "never_throws beh"
    and "list_all (fulfilled_by (timerDelay (asyncTimeout cfg))) (promises b)"
  shows "\<exists>b'. start_sets beh cfg args rs b = Inr b'
            \<and> list_all (fulfilled_by (timerDelay (asyncTimeout cfg))) (promises b')"
  using assms(2)
proof (induction rs arbitrary: b)
  case Nil
  then show ?case by simp
next
  case (Cons r rs)
  from start_all_never_throws [OF assms(1) Cons.prems]
  obtain b1 where "start_all beh cfg None args (values_of (sets (world_of b) r)) b = Inr b1"
    and "list_all (fulfilled_by (timerDelay (asyncTimeout cfg))) (promises b1)"
    by blast
  with Cons.IH [of b1] show ?case by simp
qed

lemma publish_fulfils_without_synchronous_throw:
  assumes "never_throws beh"
  shows "\<exists>t\<le>timerDelay (asyncTimeout cfg).
           fst (publish beh cfg key args w) = Settles t (Fulfilled Undefined)"
    and "\<exists>t\<le>timerDelay (asyncTimeout cfg).
           fst (publishAll beh cfg args w) = Settles t (Fulfilled Undefined)"
proof -
  have e: "list_all (fulfilled_by (timerDelay (asyncTimeout cfg))) (promises (batch0 w))"
    by (simp add: batch0_def)
  show "\<exists>t\<le>timerDelay (asyncTimeout cfg).
           fst (publish beh cfg key args w) = Settles t (Fulfilled Undefined)"
  proof (cases "map_get (eventMap w) key")
    case None
    then show ?thesis by (simp add: publish_def)
  next
    case (Some r)
    from start_all_never_throws [OF assms e]
    obtain b' where "start_all beh cfg (Some key) args (values_of (sets w r)) (batch0 w) = Inr b'"
      and "list_all (fulfilled_by (timerDelay (asyncTimeout cfg))) (promises b')"
      by blast
    with Some await_all_fulfilled [of "timerDelay (asyncTimeout cfg)" "promises b'"]
    show ?thesis by (simp add: publish_def)
  qed
  from start_sets_never_throws [OF assms e]
  obtain b' where "start_sets beh cfg args (map snd (values_of (eventMap w))) (batch0 w) = Inr b'"
    and "list_all (fulfilled_by (timerDelay (asyncTimeout cfg))) (promises b')"
    by blast
  with await_all_fulfilled [of "timerDelay (asyncTimeout cfg)" "promises b'"]
  show "\<exists>t\<le>timerDelay (asyncTimeout cfg).
           fst (publishAll beh cfg args w) = Settles t (Fulfilled Undefined)"
    by (simp add: publishAll_def)
qed

text \<open>
  Claim C7 says that the error handler receives the error and the key when a
  subscriber fails during \<open>publish\<close>. In the same example the handler is not
  called at all by \<open>publish\<close>: nothing is scheduled for it and nothing is written
  to the console, whereas \<open>publishSync\<close> hands the error and the key \<open>"a"\<close> to
  \<open>handleError\<close>.
\<close>

theorem handler_not_called_on_synchronous_throw:
  "handled (snd (publish first_throws defaultConfig (KStr ''a'') [Num 42] world_a12)) = []
   \<and> console (world_of (snd (publish first_throws defaultConfig (KStr ''a'') [Num 42] world_a12)))
       = console world_a12
   \<and> map_option (\<lambda>st. console (now st))
        (publishSync first_throws (KStr ''a'') [Num 42] world_a12)
       = Some [handleError (Error ''boom'') (Some (KStr ''a''))]"
  by (simp add: world_a12_eq publish_def batch0_def start_callback_def publishSync_def
      set_forEach.simps try_callback_def first_throws_def)

text \<open>
  What does hold of the handler: every call that \<open>publish\<close> schedules for it
  carries the key, and every call that \<open>publishAll\<close> schedules carries none. The
  last lemma is the timeout example: a promise that never settles, on an
  instance with a timeout of 50 ms.
\<close>

lemma wrapped_handled:
  "\<forall>(t, c) \<in> set (snd (catch_handleError key (withTimeout p timeout))).
      \<exists>e. c = handleError e key"
proof (cases p)
  case (Settles t s)
  then show ?thesis
    by (cases s) (auto simp: catch_handleError_def withTimeout_def)
next
  case Pending
  then show ?thesis by (auto simp: catch_handleError_def withTimeout_def)
qed

lemma start_callback_handled:
  assumes "\<forall>(t, c) \<in> set (handled b). \<exists>e. c = handleError e key"
  shows "\<forall>(t, c) \<in> set (handled (snd (finish (start_callback beh cfg key args cb b)))).
            \<exists>e. c = handleError e key"
proof -
  obtain c w' where b: "beh cb args (world_of b) = (c, w')"
    by (cases "beh cb args (world_of b)")
  show ?thesis
  proof (cases c)
    case (Throws e)
    with b assms show ?thesis by (simp add: start_callback_def)
  next
    case (Returns v)
    with b assms wrapped_handled [of key "promise_resolve v" "asyncTimeout cfg"]
    show ?thesis by (auto simp: start_callback_def split: prod.splits)
  qed
qed

lemma start_all_handled:
  assumes "\<forall>(t, c) \<in> set (handled b). \<exists>e. c = handleError e key"
  shows "\<forall>(t, c) \<in> set (handled (snd (finish (start_all beh cfg key args cbs b)))).
            \<exists>e. c = handleError e key"
  using assms
proof (induction cbs arbitrary: b)
  case Nil
  then show ?case by simp
next
  case (Cons cb cbs)
  show ?case
  proof (cases "start_callback beh cfg key args cb b")
    case (Inl thrown)
    with start_callback_handled [OF Cons.prems, of beh cfg args cb] show ?thesis
      by simp
  next
    case (Inr b1)
    with start_callback_handled [OF Cons.prems, of beh cfg args cb]
    have "\<forall>(t, c) \<in> set (handled b1). \<exists>e. c = handleError e key" by simp
    from Cons.IH [OF this] Inr show ?thesis by simp
  qed
qed

lemma start_sets_handled:
  assumes "\<forall>(t, c) \<in> set (handled b). \<exists>e. c = handleError e None"
  shows "\<forall>(t, c) \<in> set (handled (snd (finish (start_sets beh cfg args rs b)))).
            \<exists>e. c = handleError e None"
  using assms
proof (induction rs arbitrary: b)
  case Nil
  then show ?case by simp
next
  case (Cons r rs)
  show ?case
  proof (cases "start_all beh cfg None args (values_of (sets (world_of b) r)) b")
    case (Inl thrown)
    with start_all_handled [OF Cons.prems, of beh cfg args "values_of (sets (world_of b) r)"]
    show ?thesis by simp
  next
    case (Inr b1)
    with start_all_handled [OF Cons.prems, of beh cfg args "values_of (sets (world_of b) r)"]
    have "\<forall>(t, c) \<in> set (handled b1). \<exists>e. c = handleError e None" by simp
    from Cons.IH [OF this] Inr show ?thesis by simp
  qed
qed

lemma handler_key:
  "\<forall>(t, c) \<in> set (handled (snd (publish beh cfg key args w))).
      \<exists>e. c = handleError e (Some key)"
  "\<forall>(t, c) \<in> set (handled (snd (publishAll beh cfg args w))).
      \<exists>e. c = handleError e None"
proof -
  have e: "\<forall>(t, c) \<in> set (handled (batch0 w)). \<exists>e. c = handleError e k" for k
    by (simp add: batch0_def)
  show "\<forall>(t, c) \<in> set (handled (snd (publish beh cfg key args w))).
      \<exists>e. c = handleError e (Some key)"
    using start_all_handled [OF e]
    by (cases "map_get (eventMap w) key") (simp_all add: publish_def batch0_def)
  show "\<forall>(t, c) \<in> set (handled (snd (publishAll beh cfg args w))).
      \<exists>e. c = handleError e None"
    using start_sets_handled [OF e] by (simp add: publishAll_def)
qed

lemma publish_times_out:
  "publish never_settles config_50 (KStr ''a'') [Num 7] world_a1
     = (Settles 50 (Fulfilled Undefined),
        \<lparr>world_of = world_a1, started = [(1, [Num 7])],
         promises = [Settles 50 (Fulfilled Undefined)],
         handled = [(50, Console LError (ErrorInCallbackForKey (KStr ''a''))
                           (Some (Error ''Async callback timeout'')))]\<rparr>)"
  by (simp add: world_a1_eq publish_def batch0_def start_callback_def never_settles_def
      config_50_def mergeConfig_def defaultConfig_def withTimeout_def timerDelay_def
      timeoutError_def catch_handleError_def handleError_def await_all_def)

end
